theory Spec2Isabelle
  imports Complex_Main "HOL-Library.Monad_Syntax" "HOL-Library.Multiset"
    "HOL-Library.Signed_Division" "HOL-Library.Log_Nat"
begin

section \<open>yuleq: the data model\<close>

text \<open>
  The development follows \<^verbatim>\<open>yuleq.c\<close>. Conventions of the embedding:
  \<^item> C \<^verbatim>\<open>int\<close> is \<^typ>\<open>int\<close>; \<^verbatim>\<open>/\<close> on \<^verbatim>\<open>int\<close> is the truncating \<open>sdiv\<close>.
    Overflow is not modelled: the statements are about sessions whose sample counts
    and byte sizes fit the 32-bit range. The frame count \<^verbatim>\<open>unsigned long n\<close> of a
    callback is a \<^typ>\<open>nat\<close>.
  \<^item> The type of a \<^verbatim>\<open>float\<close> sample is a type variable \<open>'a\<close> of which only the
    operation symbols \<open>0\<close>, \<open>1\<close>, \<open>+\<close>, \<open>-\<close>, \<open>*\<close> are used and no law is assumed:
    what is proved about buffers holds for IEEE arithmetic with its rounding as for any
    other reading of the symbols. Two readings are used where a statement depends on
    the arithmetic: the type \<open>binary32\<close> defined below, and a commutative ring.
  \<^item> A \<^verbatim>\<open>float*\<close> into a track is a pair of the buffer and an offset in samples.
    An access outside a buffer is the result \<open>None\<close>.
  \<^item> The structs \<^verbatim>\<open>track\<close> and \<^verbatim>\<open>player\<close> share field names; the fields of a track are
    written qualified (\<open>track.pcm\<close>, \<open>track.length'\<close>). The fields \<^verbatim>\<open>next\<close>, \<^verbatim>\<open>end\<close> and
    \<^verbatim>\<open>length\<close> carry a prime.
\<close>

definition MAX_TRACKS :: int where "MAX_TRACKS = 10"
definition MAX_LENGTH :: int where "MAX_LENGTH = 600"
definition STEP :: int where "STEP = 50"
definition LATENCY :: int where "LATENCY = 20"

record 'a track =
  pcm :: "'a list"
  name :: string
  channels :: int
  samplerate :: int
  length' :: int

record 'a player =
  track :: int
  next' :: int
  pos :: int
  start :: int
  end' :: int
  length' :: int
  channels :: int
  samplerate :: int
  running :: bool
  paused :: bool
  window :: "'a list"

type_synonym 'a ptr = "'a list \<times> int"

definition min' :: "int \<Rightarrow> int \<Rightarrow> int" where
  "min' a b = (if a < b then a else b)"

definition max' :: "int \<Rightarrow> int \<Rightarrow> int" where
  "max' a b = (if a > b then a else b)"

section \<open>The cross-fade window\<close>

text \<open>
  The \<^verbatim>\<open>double\<close> arithmetic of \<^verbatim>\<open>gen_window\<close> is that of the platform: the constant
  \<^verbatim>\<open>M_PI\<close>, the rounded product, quotient and sum, and the \<^verbatim>\<open>cos\<close> of the C library are
  parameters. A finite \<^verbatim>\<open>double\<close> is the real number it stands for; \<^verbatim>\<open>0.5\<close> and the
  conversions of \<^verbatim>\<open>i\<close> and \<^verbatim>\<open>n\<close> are exact.
\<close>

record double_ops =
  M_PI :: real
  mul_d :: "real \<Rightarrow> real \<Rightarrow> real"
  div_d :: "real \<Rightarrow> real \<Rightarrow> real"
  add_d :: "real \<Rightarrow> real \<Rightarrow> real"
  cos_d :: "real \<Rightarrow> real"

text \<open>
  \<^verbatim>\<open>gen_window\<close> fills \<^verbatim>\<open>n * ch\<close> slots, frame by frame and channel by channel, with
  \<^verbatim>\<open>0.5 + 0.5 * cos(M_PI * i / n)\<close> as the platform evaluates it; the narrowing cast
  \<^verbatim>\<open>(float)w\<close> is the parameter \<open>to_float\<close>.
\<close>

definition gen_window :: "double_ops \<Rightarrow> (real \<Rightarrow> 'a) \<Rightarrow> 'a player \<Rightarrow> 'a player" where
  "gen_window ops to_float p =
     (let ch = channels p;
          n = LATENCY * samplerate p sdiv 1000;
          win = concat (map (\<lambda>i. let w = add_d ops 0.5 (mul_d ops 0.5
                                             (cos_d ops (div_d ops (mul_d ops (M_PI ops) (real i))
                                                                   (real_of_int n))))
                                   in map (\<lambda>c. to_float w) [0..<nat ch])
                            [0..<nat n])
      in p\<lparr>window := win\<rparr>)"

text \<open>
  \<^verbatim>\<open>apply_window(out, in)\<close>: the loop writes \<^verbatim>\<open>out[i]\<close> for \<open>i < n * ch\<close>, with its own
  \<open>n\<close>, reading \<^verbatim>\<open>win[i]\<close> and \<^verbatim>\<open>in[i]\<close>. The three ranges are checked first, then the
  loop runs over the indices in order.
\<close>

definition apply_window :: "('a::{one,plus,minus,times}) player \<Rightarrow> 'a list \<Rightarrow> 'a ptr \<Rightarrow> 'a list option" where
  "apply_window p out inp =
     (let ch = channels p;
          n = LATENCY * samplerate p sdiv 1000;
          win = window p;
          cnt = n * ch
      in if cnt \<le> 0 then Some out
         else if cnt \<le> int (length out) \<and> cnt \<le> int (length win)
                 \<and> 0 \<le> snd inp \<and> snd inp + cnt \<le> int (length (fst inp))
         then Some (fold (\<lambda>i out. out[i := win ! i * out ! i
                                      + (1 - win ! i) * fst inp ! (nat (snd inp) + i)])
                         [0..<nat cnt] out)
         else None)"

section \<open>The audio callback\<close>

definition memcpy_from :: "'a ptr \<Rightarrow> int \<Rightarrow> 'a list option" where
  "memcpy_from inp cnt =
     (if 0 \<le> snd inp \<and> 0 \<le> cnt \<and> snd inp + cnt \<le> int (length (fst inp))
      then Some (take (nat cnt) (drop (nat (snd inp)) (fst inp)))
      else None)"

definition memset_zero :: "int \<Rightarrow> ('a::zero) list option" where
  "memset_zero cnt = (if 0 \<le> cnt then Some (replicate (nat cnt) 0) else None)"

definition track_at :: "'a track list \<Rightarrow> int \<Rightarrow> 'a track option" where
  "track_at tracks i =
     (if 0 \<le> i \<and> i < int (length tracks) then Some (tracks ! nat i) else None)"

text \<open>
  \<^verbatim>\<open>process\<close> with the frame count \<open>n\<close> of the invocation: the new player and the
  \<open>n * ch\<close> samples left in the output buffer.
\<close>

definition process ::
  "nat \<Rightarrow> ('a::{zero,one,plus,minus,times}) track list \<Rightarrow> 'a player \<Rightarrow> ('a player \<times> 'a list) option" where
  "process n tracks p =
     (let ch = channels p in
      if paused p then map_option (Pair p) (memset_zero (int n * ch))
      else do {
        t \<leftarrow> track_at tracks (track p);
        out \<leftarrow> memcpy_from (track.pcm t, pos p * ch) (int n * ch);
        (p1, out1) \<leftarrow>
          (if track p \<noteq> next' p then do {
             t1 \<leftarrow> track_at tracks (next' p);
             out' \<leftarrow> apply_window p out (track.pcm t1, pos p * ch);
             Some (p\<lparr>track := next' p\<rparr>, out')
           } else Some (p, out));
        let p2 = p1\<lparr>pos := pos p1 + int n\<rparr>;
        if pos p2 > end' p2 then do {
          t2 \<leftarrow> track_at tracks (track p2);
          out' \<leftarrow> apply_window p2 out1 (track.pcm t2, start p2 * ch);
          Some (p2\<lparr>pos := start p2 + int n\<rparr>, out')
        } else Some (p2, out1)
      })"

section \<open>Stream start and the control loop\<close>

text \<open>
  \<^verbatim>\<open>start_stream\<close>: the player as it is left, and the frame count handed to the audio
  library, with which every callback is then invoked.
\<close>

definition start_stream :: "'a player \<Rightarrow> 'a player \<times> int" where
  "start_stream p =
     (let sr = samplerate p;
          samples = LATENCY * sr sdiv 1000
      in (p\<lparr>end' := length' p, running := True\<rparr>, samples))"

text \<open>The \<^verbatim>\<open>switch\<close> of \<^verbatim>\<open>main\<close>, for one key; \<open>step\<close> is computed once before the loop.\<close>

definition main_step :: "'a player \<Rightarrow> int" where
  "main_step p = STEP * samplerate p sdiv 1000"

definition main_switch :: "int \<Rightarrow> int \<Rightarrow> char \<Rightarrow> 'a player \<Rightarrow> 'a player" where
  "main_switch num_files step ch p =
     (if ch = CHR '' '' then p\<lparr>paused := \<not> paused p\<rparr>
      else if ch \<in> set ''0123456789'' then
        (let c = (if ch = CHR ''0'' then of_char ch + 10 else of_char ch) :: int
         in if c - of_char CHR ''0'' \<le> num_files
            then p\<lparr>next' := c - of_char CHR ''0'' - 1\<rparr> else p)
      else if ch = CHR ''c'' then p\<lparr>end' := length' p\<rparr>
      else if ch = CHR ''d'' then p\<lparr>end' := pos p\<rparr>
      else if ch = CHR ''i'' then p\<lparr>start := max' (start p - step) 0\<rparr>
      else if ch = CHR ''k'' then p\<lparr>end' := max' (end' p - step) (start p)\<rparr>
      else if ch = CHR ''l'' then p\<lparr>end' := min' (end' p + step) (length' p)\<rparr>
      else if ch = CHR ''o'' then p\<lparr>start := min' (start p + step) (end' p)\<rparr>
      else if ch = CHR ''q'' then p\<lparr>running := False\<rparr>
      else if ch = CHR ''s'' then p\<lparr>start := pos p\<rparr>
      else if ch = CHR ''x'' then p\<lparr>start := 0\<rparr>
      else p)"

text \<open>
  The two activities interleave: an event is one callback invocation or one key read by
  the control loop, which handles keys only while \<^verbatim>\<open>running\<close> holds.
\<close>

datatype event = Callback | Key char

definition step_event ::
  "nat \<Rightarrow> int \<Rightarrow> ('a::{zero,one,plus,minus,times}) track list \<Rightarrow> 'a player \<Rightarrow> event
     \<Rightarrow> ('a player \<times> 'a list list) option" where
  "step_event n num_files tracks p e =
     (case e of
        Callback \<Rightarrow> map_option (map_prod id (\<lambda>out. [out])) (process n tracks p)
      | Key ch \<Rightarrow> Some (if running p then main_switch num_files (main_step p) ch p else p, []))"

text \<open>A run: the final player and the output buffers of its callbacks, in order.\<close>

fun run_events ::
  "nat \<Rightarrow> int \<Rightarrow> ('a::{zero,one,plus,minus,times}) track list \<Rightarrow> 'a player \<Rightarrow> event list
     \<Rightarrow> ('a player \<times> 'a list list) option" where
  "run_events n num_files tracks p [] = Some (p, [])"
| "run_events n num_files tracks p (e # es) =
     (case step_event n num_files tracks p e of
        None \<Rightarrow> None
      | Some (p', outs) \<Rightarrow>
          map_option (map_prod id ((@) outs)) (run_events n num_files tracks p' es))"

section \<open>Loading and shuffling\<close>

text \<open>
  What \<^verbatim>\<open>ffprobe\<close> and \<^verbatim>\<open>ffmpeg\<close> return for one file is the input of the model: the three
  numbers \<^verbatim>\<open>grep_int\<close> finds and the stream of \<^verbatim>\<open>float\<close>s.
\<close>

datatype error =
  No_input_files | Invalid_audio_file | Too_long | Channel_mismatch | Samplerate_mismatch
  | Bad_padding_size

record 'a decoded =
  file_name :: string
  probe_channels :: int
  probe_sample_rate :: int
  probe_duration :: int
  floats :: "'a list"

text \<open>
  \<^verbatim>\<open>load_track\<close>. The length is \<^verbatim>\<open>b.size / sizeof(float) / t.channels\<close>, an unsigned
  division, written \<open>div\<close>: the channel count of a stream is positive.
\<close>

definition load_track :: "'a decoded \<Rightarrow> error + 'a track" where
  "load_track d =
     (if probe_channels d = 0 \<or> probe_sample_rate d = 0 then Inl Invalid_audio_file
      else if probe_duration d > MAX_LENGTH then Inl Too_long
      else Inr \<lparr>pcm = floats d, name = file_name d, channels = probe_channels d,
                samplerate = probe_sample_rate d,
                length' = int (length (floats d)) div probe_channels d\<rparr>)"

text \<open>
  One turn of the loop of \<^verbatim>\<open>load_tracks\<close>, the tracks loaded so far in \<open>ts\<close> (so
  \<open>i = 0\<close> is \<open>ts = []\<close>). \<^verbatim>\<open>alloc\<close> keeps the first \<^verbatim>\<open>size\<close> bytes and \<^verbatim>\<open>memset\<close> zeroes
  the \<^verbatim>\<open>bytes\<close> after them; sizes are counted in samples here. A negative \<^verbatim>\<open>bytes\<close>
  would be a huge \<^verbatim>\<open>size_t\<close>: the run does not go on.
\<close>

definition load_one ::
  "int \<Rightarrow> ('a::zero) player \<Rightarrow> 'a track list \<Rightarrow> 'a decoded \<Rightarrow> error + 'a player \<times> 'a track list" where
  "load_one device_rate p ts d =
     (case load_track d of
        Inl e \<Rightarrow> Inl e
      | Inr t \<Rightarrow>
          let t0 = (if ts = [] then t else hd ts) in
          if track.channels t \<noteq> track.channels t0 then Inl Channel_mismatch
          else if track.samplerate t \<noteq> track.samplerate t0 then Inl Samplerate_mismatch
          else
            let p1 = (if ts = []
                      then p\<lparr>length' := track.length' t, channels := track.channels t,
                             samplerate := (if device_rate \<noteq> 0 then device_rate
                                            else track.samplerate t)\<rparr>
                      else p);
                samples0 = LATENCY * samplerate p1 sdiv 1000;
                samples1 = (if track.length' t < length' p1
                            then samples0 + (length' p1 - track.length' t) else samples0);
                size = track.length' t * track.channels t;
                bytes = samples1 * track.channels t
            in if bytes < 0 then Inl Bad_padding_size
               else Inr (p1, ts @ [t\<lparr>pcm := take (nat size) (track.pcm t)
                                            @ replicate (nat bytes) 0\<rparr>]))"

fun load_loop ::
  "int \<Rightarrow> ('a::zero) player \<Rightarrow> 'a track list \<Rightarrow> 'a decoded list \<Rightarrow> error + 'a player \<times> 'a track list" where
  "load_loop device_rate p ts [] = Inr (p, ts)"
| "load_loop device_rate p ts (d # ds) =
     (case load_one device_rate p ts d of
        Inl e \<Rightarrow> Inl e
      | Inr (p1, ts1) \<Rightarrow> load_loop device_rate p1 ts1 ds)"

definition load_tracks ::
  "int \<Rightarrow> ('a::zero) player \<Rightarrow> 'a decoded list \<Rightarrow> error + 'a player \<times> 'a track list" where
  "load_tracks device_rate p files =
     (if files = [] then Inl No_input_files else load_loop device_rate p [] files)"

text \<open>
  \<^verbatim>\<open>shuffle_tracks\<close>. \<^verbatim>\<open>RAND_MAX\<close> and the sequence of values \<^verbatim>\<open>rand()\<close> returns are
  parameters; the \<^verbatim>\<open>double\<close> expression is read over the reals and truncated.
\<close>

definition rand_offset :: "nat \<Rightarrow> nat \<Rightarrow> nat \<Rightarrow> nat" where
  "rand_offset RAND_MAX r k = nat \<lfloor>real r / (real RAND_MAX + 1.0) * real k\<rfloor>"

definition swap_tracks :: "nat \<Rightarrow> nat \<Rightarrow> 'a list \<Rightarrow> 'a list" where
  "swap_tracks i j tracks = (let t = tracks ! i in (tracks[i := tracks ! j])[j := t])"

definition shuffle_tracks :: "nat \<Rightarrow> (nat \<Rightarrow> nat) \<Rightarrow> bool \<Rightarrow> 'a list \<Rightarrow> 'a list" where
  "shuffle_tracks RAND_MAX rand skip_first tracks =
     (let n = length tracks;
          first = (if skip_first then 1 else 0)
      in fold (\<lambda>i ts. let j = i + rand_offset RAND_MAX (rand (i - first)) (n - i)
                       in swap_tracks i j ts)
              [first..<n - 1] tracks)"

section \<open>Notions used in the statements\<close>

text \<open>The value \<^verbatim>\<open>apply_window\<close> leaves in one slot.\<close>

definition blend :: "('a::{one,plus,minus,times}) \<Rightarrow> 'a \<Rightarrow> 'a \<Rightarrow> 'a" where
  "blend w x y = w * x + (1 - w) * y"

text \<open>The \<^verbatim>\<open>double\<close> that \<^verbatim>\<open>gen_window\<close> computes for frame \<open>i\<close> of \<open>n\<close>.\<close>

definition coefficient :: "double_ops \<Rightarrow> nat \<Rightarrow> int \<Rightarrow> real" where
  "coefficient ops i n =
     add_d ops 0.5 (mul_d ops 0.5
       (cos_d ops (div_d ops (mul_d ops (M_PI ops) (real i)) (real_of_int n))))"

text \<open>Arithmetic without rounding, to evaluate small windows.\<close>

definition exact_ops :: double_ops where
  "exact_ops = \<lparr>M_PI = pi, mul_d = (*), div_d = (/), add_d = (+), cos_d = cos\<rparr>"

text \<open>The curve of the specification.\<close>

definition raised_cosine :: "nat \<Rightarrow> nat \<Rightarrow> real" where
  "raised_cosine i n = 0.5 + 0.5 * cos (pi * real i / real n)"

text \<open>
  The standard model of rounding for the operations \<^verbatim>\<open>gen_window\<close> performs on a window
  of \<open>n\<close> frames: each product, quotient and sum is within the relative error \<open>u\<close> of
  the exact result on the operands it gets, \<^verbatim>\<open>cos\<close> within \<open>e_cos\<close>, \<^verbatim>\<open>M_PI\<close> within
  \<open>e_pi\<close> of \<open>\<pi>\<close>.
\<close>

definition rounds_within :: "double_ops \<Rightarrow> nat \<Rightarrow> real \<Rightarrow> real \<Rightarrow> real \<Rightarrow> bool" where
  "rounds_within ops n u e_pi e_cos =
     (0 \<le> u \<and> 0 \<le> e_cos \<and> \<bar>M_PI ops - pi\<bar> \<le> e_pi
      \<and> (\<forall>i<n.
           let m = mul_d ops (M_PI ops) (real i);
               q = div_d ops m (real n);
               c = cos_d ops q;
               h = mul_d ops 0.5 c
           in \<bar>m - M_PI ops * real i\<bar> \<le> u * \<bar>M_PI ops * real i\<bar>
              \<and> \<bar>q - m / real n\<bar> \<le> u * \<bar>m / real n\<bar>
              \<and> \<bar>c - cos q\<bar> \<le> e_cos
              \<and> \<bar>h - 0.5 * c\<bar> \<le> u * \<bar>0.5 * c\<bar>
              \<and> \<bar>add_d ops 0.5 h - (0.5 + h)\<bar> \<le> u * \<bar>0.5 + h\<bar>))"

text \<open>The bound that follows for a coefficient.\<close>

definition window_error :: "real \<Rightarrow> real \<Rightarrow> real \<Rightarrow> real" where
  "window_error u e_pi e_cos =
     (let P = pi + e_pi;
          A = e_pi + u * P * (2 + u);
          B = e_cos + A;
          C = B / 2 + u * (1 + B) / 2
      in C + u * (1 + C))"

text \<open>The number of slots the loop of \<^verbatim>\<open>apply_window\<close> visits.\<close>

definition fade_samples :: "'a player \<Rightarrow> nat" where
  "fade_samples p = nat (LATENCY * samplerate p sdiv 1000 * channels p)"

text \<open>
  The output buffer of an invocation that is not paused, as it stands when the position
  is advanced: the copy from the current track and, when a switch is armed, the
  cross-fade towards the next track.
\<close>

definition copy_and_switch ::
  "nat \<Rightarrow> ('a::{zero,one,plus,minus,times}) track list \<Rightarrow> 'a player \<Rightarrow> 'a list option" where
  "copy_and_switch n tracks p =
     do {
       t \<leftarrow> track_at tracks (track p);
       out \<leftarrow> memcpy_from (track.pcm t, pos p * channels p) (int n * channels p);
       if track p \<noteq> next' p then do {
         t1 \<leftarrow> track_at tracks (next' p);
         apply_window p out (track.pcm t1, pos p * channels p)
       } else Some out
     }"

text \<open>The invariant as the specification words it.\<close>

definition loop_invariant :: "'a player \<Rightarrow> bool" where
  "loop_invariant p =
     (0 \<le> start p \<and> start p \<le> pos p \<and> pos p \<le> end' p \<and> end' p \<le> length' p)"

text \<open>
  What the engine and the clamped commands keep: the loop region is ordered and inside
  the track, and the position is at most one callback buffer past the track.
\<close>

definition loop_bounds :: "nat \<Rightarrow> 'a player \<Rightarrow> bool" where
  "loop_bounds n p =
     (0 \<le> start p \<and> start p \<le> end' p \<and> end' p \<le> length' p
      \<and> 0 \<le> pos p \<and> pos p \<le> length' p + int n)"

text \<open>
  The two commands that copy \<^verbatim>\<open>pos\<close> are without a clamp. An event is \<^emph>\<open>in region\<close>
  when it is not one of them, or the position it copies keeps the region ordered.
\<close>

definition in_region :: "'a player \<Rightarrow> event \<Rightarrow> bool" where
  "in_region p e =
     (case e of
        Callback \<Rightarrow> True
      | Key ch \<Rightarrow> (ch = CHR ''s'' \<longrightarrow> pos p \<le> end' p)
               \<and> (ch = CHR ''d'' \<longrightarrow> start p \<le> pos p \<and> pos p \<le> length' p))"

fun in_region_run ::
  "nat \<Rightarrow> int \<Rightarrow> ('a::{zero,one,plus,minus,times}) track list \<Rightarrow> 'a player \<Rightarrow> event list \<Rightarrow> bool" where
  "in_region_run n num_files tracks p [] = True"
| "in_region_run n num_files tracks p (e # es) =
     (in_region p e \<and>
      (case step_event n num_files tracks p e of
         None \<Rightarrow> True
       | Some (p', outs) \<Rightarrow> in_region_run n num_files tracks p' es))"

text \<open>
  A loaded track is padded for a player: it has the player's channel count, its buffer
  holds the reference length and one window, and exactly that when the track is shorter
  than the reference.
\<close>

definition padded :: "'a player \<Rightarrow> 'a track \<Rightarrow> bool" where
  "padded p t =
     (track.channels t = channels p
      \<and> (length' p + LATENCY * samplerate p sdiv 1000) * channels p
           \<le> int (length (track.pcm t))
      \<and> (track.length' t < length' p \<longrightarrow>
           int (length (track.pcm t))
             = (length' p + LATENCY * samplerate p sdiv 1000) * channels p))"

text \<open>
  The state in which the stream invokes the callback: the tracks as loaded, the frame
  count and the window of the stream, the current and the next track among the loaded
  ones, position and loop start inside the reference length.
\<close>

definition callback_ready :: "nat \<Rightarrow> 'a track list \<Rightarrow> 'a player \<Rightarrow> bool" where
  "callback_ready n tracks p =
     (0 \<le> track p \<and> track p < int (length tracks)
      \<and> 0 \<le> next' p \<and> next' p < int (length tracks)
      \<and> (\<forall>t\<in>set tracks. padded p t) \<and> 0 < channels p
      \<and> int n = LATENCY * samplerate p sdiv 1000
      \<and> fade_samples p \<le> length (window p)
      \<and> 0 \<le> pos p \<and> pos p \<le> length' p \<and> 0 \<le> start p \<and> start p \<le> length' p)"

section \<open>Single-precision samples\<close>

text \<open>
  The samples are \<^verbatim>\<open>float\<close>. Where a statement depends on the rounding, they are read as
  IEEE 754 binary32 with every operation rounded to the nearest value, ties to the even
  significand, and no contraction of a product and a sum into one operation.
  \<open>Finite m e\<close> is the number \<open>m * 2 ^ e\<close> with \<open>\<bar>m\<bar> < 2 ^ 24\<close> and \<open>- 149 \<le> e \<le> 104\<close>,
  the significand having 24 bits unless \<open>e = - 149\<close>; the two zeros are not told apart.
\<close>

datatype binary32 = Finite int int | Infinity bool | NaN

text \<open>\<open>a / 2 ^ s\<close> rounded to the nearest integer, a tie to the even one, for \<open>0 \<le> a\<close>.\<close>

definition rne :: "int \<Rightarrow> nat \<Rightarrow> int" where
  "rne a s =
     (if s = 0 then a
      else let q = a div 2 ^ s; r = a mod 2 ^ s; h = 2 ^ (s - 1)
           in if r > h \<or> (r = h \<and> odd q) then q + 1 else q)"

text \<open>The binary32 value nearest to \<open>M * 2 ^ E\<close>.\<close>

definition round32 :: "int \<Rightarrow> int \<Rightarrow> binary32" where
  "round32 M E =
     (if M = 0 then Finite 0 (- 149)
      else let k = bitlen \<bar>M\<bar>;
               e = max (E + k - 24) (- 149);
               m = (if e \<le> E then \<bar>M\<bar> * 2 ^ nat (E - e) else rne \<bar>M\<bar> (nat (e - E)));
               e' = (if m = 2 ^ 24 then e + 1 else e);
               m' = (if m = 2 ^ 24 then 2 ^ 23 else m)
           in if e' > 104 then Infinity (M < 0) else Finite (sgn M * m') e')"

fun negate32 :: "binary32 \<Rightarrow> binary32" where
  "negate32 (Finite m e) = Finite (- m) e"
| "negate32 (Infinity s) = Infinity (\<not> s)"
| "negate32 NaN = NaN"

fun times32 :: "binary32 \<Rightarrow> binary32 \<Rightarrow> binary32" where
  "times32 NaN y = NaN"
| "times32 x NaN = NaN"
| "times32 (Infinity s) (Infinity t) = Infinity (s \<noteq> t)"
| "times32 (Infinity s) (Finite m e) = (if m = 0 then NaN else Infinity (s \<noteq> (m < 0)))"
| "times32 (Finite m e) (Infinity s) = (if m = 0 then NaN else Infinity (s \<noteq> (m < 0)))"
| "times32 (Finite m1 e1) (Finite m2 e2) = round32 (m1 * m2) (e1 + e2)"

fun plus32 :: "binary32 \<Rightarrow> binary32 \<Rightarrow> binary32" where
  "plus32 NaN y = NaN"
| "plus32 x NaN = NaN"
| "plus32 (Infinity s) (Infinity t) = (if s = t then Infinity s else NaN)"
| "plus32 (Infinity s) (Finite m e) = Infinity s"
| "plus32 (Finite m e) (Infinity s) = Infinity s"
| "plus32 (Finite m1 e1) (Finite m2 e2) =
     (let e = min e1 e2
      in round32 (m1 * 2 ^ nat (e1 - e) + m2 * 2 ^ nat (e2 - e)) e)"

instantiation binary32 :: "{zero,one,plus,minus,times}"
begin

definition zero_binary32 :: binary32 where "zero_binary32 = Finite 0 (- 149)"
definition one_binary32 :: binary32 where "one_binary32 = Finite (2 ^ 23) (- 23)"
definition plus_binary32 :: "binary32 \<Rightarrow> binary32 \<Rightarrow> binary32" where
  "plus_binary32 x y = plus32 x y"
definition minus_binary32 :: "binary32 \<Rightarrow> binary32 \<Rightarrow> binary32" where
  "minus_binary32 x y = plus32 x (negate32 y)"
definition times_binary32 :: "binary32 \<Rightarrow> binary32 \<Rightarrow> binary32" where
  "times_binary32 x y = times32 x y"

instance ..

end

section \<open>Sessions to evaluate\<close>

text \<open>
  A stereo second of silence at 48 kHz: 48000 frames and the 960 frames of padding.
  The window is left as \<^verbatim>\<open>gen_window\<close> computes it.
\<close>

definition zero_player :: "real player" where
  "zero_player = \<lparr>track = 0, next' = 0, pos = 0, start = 0, end' = 0, length' = 0,
     channels = 0, samplerate = 0, running = False, paused = False, window = []\<rparr>"

definition second_loaded :: "real player" where
  "second_loaded = zero_player\<lparr>length' := 48000, channels := 2, samplerate := 48000\<rparr>"

definition second_tracks :: "real track list" where
  "second_tracks = [\<lparr>pcm = replicate 97920 0, name = ''a.wav'', channels = 2,
     samplerate = 48000, length' = 48000\<rparr>]"

definition second_started :: "real player" where
  "second_started = fst (start_stream (gen_window exact_ops id second_loaded))"

text \<open>
  Two mono files at 100 Hz, of four and of two frames; a callback has two frames, a
  loop step five.
\<close>

definition demo_files :: "real decoded list" where
  "demo_files =
     [\<lparr>file_name = ''a'', probe_channels = 1, probe_sample_rate = 100, probe_duration = 0,
       floats = [8, 4, 8, 4]\<rparr>,
      \<lparr>file_name = ''b'', probe_channels = 1, probe_sample_rate = 100, probe_duration = 0,
       floats = [2, 6]\<rparr>]"

definition demo_tracks :: "real track list" where
  "demo_tracks =
     [\<lparr>pcm = [8, 4, 8, 4, 0, 0], name = ''a'', channels = 1, samplerate = 100, length' = 4\<rparr>,
      \<lparr>pcm = [2, 6, 0, 0, 0, 0], name = ''b'', channels = 1, samplerate = 100, length' = 2\<rparr>]"

definition demo_loaded :: "real player" where
  "demo_loaded = zero_player\<lparr>length' := 4, channels := 1, samplerate := 100\<rparr>"

definition demo_started :: "real player" where
  "demo_started = demo_loaded\<lparr>end' := 4, running := True, window := [1, 1 / 2]\<rparr>"

text \<open>A player at 50 Hz: one frame for each callback.\<close>

definition one_frame_player :: "real player" where
  "one_frame_player = zero_player\<lparr>length' := 2, channels := 1, samplerate := 50\<rparr>"

text \<open>
  Two mono files at 100 Hz again, of six and of two frames: the last window of the
  reference length is the frames 4 and 5, and a loop step from 0 puts the start at 5.
\<close>

definition tail_files :: "real decoded list" where
  "tail_files =
     [\<lparr>file_name = ''a'', probe_channels = 1, probe_sample_rate = 100, probe_duration = 0,
       floats = [8, 4, 8, 4, 8, 4]\<rparr>,
      \<lparr>file_name = ''b'', probe_channels = 1, probe_sample_rate = 100, probe_duration = 0,
       floats = [2, 6]\<rparr>]"

definition tail_tracks :: "real track list" where
  "tail_tracks =
     [\<lparr>pcm = [8, 4, 8, 4, 8, 4, 0, 0], name = ''a'', channels = 1, samplerate = 100,
       length' = 6\<rparr>,
      \<lparr>pcm = [2, 6, 0, 0, 0, 0, 0, 0], name = ''b'', channels = 1, samplerate = 100,
       length' = 2\<rparr>]"

definition tail_loaded :: "real player" where
  "tail_loaded = zero_player\<lparr>length' := 6, channels := 1, samplerate := 100\<rparr>"

definition tail_started :: "real player" where
  "tail_started = tail_loaded\<lparr>end' := 6, running := True, window := [1, 1 / 2]\<rparr>"

text \<open>
  A binary32 player at 50 Hz, mono: the window of one frame that \<^verbatim>\<open>gen_window\<close> leaves
  there is the single coefficient 1.
\<close>

definition one_slot_player :: "binary32 player" where
  "one_slot_player = \<lparr>track = 0, next' = 0, pos = 0, start = 0, end' = 0, length' = 0,
     channels = 1, samplerate = 50, running = True, paused = False, window = [1]\<rparr>"

section \<open>Facts about the callback\<close>

lemma sdiv_nonneg_eq_div: "0 \<le> k \<Longrightarrow> 0 < l \<Longrightarrow> k sdiv l = k div (l::int)"
  by (cases "k = 0") (simp_all add: signed_divide_int_def)

lemma fold_update_nth:
  "m \<le> length xs \<Longrightarrow>
     length (fold (\<lambda>i ys. ys[i := g i (ys ! i)]) [0..<m] xs) = length xs
     \<and> (\<forall>i<length xs. fold (\<lambda>i ys. ys[i := g i (ys ! i)]) [0..<m] xs ! i
            = (if i < m then g i (xs ! i) else xs ! i))"
proof (induction m)
  case 0
  then show ?case by simp
next
  case (Suc m)
  then have IH: "length (fold (\<lambda>i ys. ys[i := g i (ys ! i)]) [0..<m] xs) = length xs"
    "\<And>i. i < length xs \<Longrightarrow> fold (\<lambda>i ys. ys[i := g i (ys ! i)]) [0..<m] xs ! i
            = (if i < m then g i (xs ! i) else xs ! i)"
    by auto
  show ?case
    using Suc.prems by (auto simp: IH nth_list_update less_Suc_eq)
qed

lemma apply_window_nth:
  assumes "apply_window p out inp = Some out'"
  shows "length out' = length out"
    and "i < length out \<Longrightarrow>
           out' ! i = (if i < fade_samples p
                       then blend (window p ! i) (out ! i) (fst inp ! (nat (snd inp) + i))
                       else out ! i)"
proof -
  let ?cnt = "LATENCY * samplerate p sdiv 1000 * channels p"
  let ?g = "\<lambda>i x. window p ! i * x + (1 - window p ! i) * fst inp ! (nat (snd inp) + i)"
  have zero: "?cnt \<le> 0 \<Longrightarrow> out' = out"
    using assms by (simp add: apply_window_def Let_def)
  have loop: "\<not> ?cnt \<le> 0 \<Longrightarrow> nat ?cnt \<le> length out
      \<and> out' = fold (\<lambda>i ys. ys[i := ?g i (ys ! i)]) [0..<nat ?cnt] out"
    using assms by (auto simp: apply_window_def Let_def split: if_splits)
  show "length out' = length out"
    using zero loop fold_update_nth [of "nat ?cnt" out ?g] by (cases "?cnt \<le> 0") auto
  assume "i < length out"
  then show "out' ! i = (if i < fade_samples p
                       then blend (window p ! i) (out ! i) (fst inp ! (nat (snd inp) + i))
                       else out ! i)"
    using zero loop fold_update_nth [of "nat ?cnt" out ?g]
    by (cases "?cnt \<le> 0") (auto simp: fade_samples_def blend_def)
qed

lemma apply_window_upd [simp]:
  "apply_window (p\<lparr>pos := x\<rparr>) = apply_window p"
  "apply_window (p\<lparr>track := y\<rparr>) = apply_window p"
  by (simp_all add: apply_window_def fun_eq_iff)

lemma memcpy_from_nth:
  assumes "memcpy_from inp cnt = Some out"
  shows "length out = nat cnt" and "i < length out \<Longrightarrow> out ! i = fst inp ! (nat (snd inp) + i)"
  using assms by (auto simp: memcpy_from_def split: if_splits)

text \<open>An invocation that is not paused, in its two cases.\<close>

lemma process_unpaused:
  assumes "\<not> paused p" and "process n tracks p = Some (p', out)"
  shows "\<exists>out1 t. copy_and_switch n tracks p = Some out1
    \<and> track_at tracks (next' p) = Some t
    \<and> length out1 = nat (int n * channels p)
    \<and> (if pos p + int n > end' p
       then p' = p\<lparr>track := next' p, pos := start p + int n\<rparr>
           \<and> apply_window p out1 (track.pcm t, start p * channels p) = Some out
       else p' = p\<lparr>track := next' p, pos := pos p + int n\<rparr> \<and> out = out1)"
proof -
  from assms obtain t0 out0 where t0: "track_at tracks (track p) = Some t0"
    and out0: "memcpy_from (track.pcm t0, pos p * channels p) (int n * channels p) = Some out0"
    by (auto simp: process_def Let_def split: bind_splits)
  have len0: "length out0 = nat (int n * channels p)"
    using memcpy_from_nth(1) [OF out0] .
  show ?thesis
  proof (cases "track p = next' p")
    case True
    have cs: "copy_and_switch n tracks p = Some out0"
      using True t0 out0 by (simp add: copy_and_switch_def)
    have t0': "track_at tracks (next' p) = Some t0"
      using True t0 by simp
    have same: "p\<lparr>track := next' p\<rparr> = p" using True by simp
    from assms t0' True out0 show ?thesis
      unfolding cs
      by (auto simp: process_def Let_def len0 t0 same split: bind_splits if_splits)
  next
    case False
    with assms obtain t1 out1 where t1: "track_at tracks (next' p) = Some t1"
      and out1: "apply_window p out0 (track.pcm t1, pos p * channels p) = Some out1"
      by (auto simp: process_def Let_def t0 out0 split: bind_splits)
    have cs: "copy_and_switch n tracks p = Some out1"
      using False by (simp add: copy_and_switch_def t0 out0 t1 out1)
    have len1: "length out1 = nat (int n * channels p)"
      using apply_window_nth(1) [OF out1] len0 by simp
    from assms False show ?thesis
      unfolding cs
      by (auto simp: process_def Let_def t0 out0 t1 out1 len1 split: bind_splits if_splits)
  qed
qed

lemma process_cases:
  assumes "process n tracks p = Some (p', out)"
  shows "p' = p \<or> (\<not> paused p \<and> (\<exists>x. p' = p\<lparr>track := next' p, pos := x\<rparr>))"
proof (cases "paused p")
  case True
  with assms show ?thesis by (auto simp: process_def Let_def)
next
  case False
  from process_unpaused [OF False assms] show ?thesis
    using False by (auto split: if_splits)
qed

lemma process_fields:
  assumes "process n tracks p = Some (p', out)"
  shows "next' p' = next' p" "start p' = start p" "end' p' = end' p" "channels p' = channels p"
    "samplerate p' = samplerate p" "window p' = window p" "length' p' = length' p"
    "paused p' = paused p" "running p' = running p"
  using process_cases [OF assms] by auto

lemma process_pos:
  assumes "process n tracks p = Some (p', out)"
  shows "pos p' = (if paused p then pos p
                   else if pos p + int n > end' p then start p + int n else pos p + int n)"
proof (cases "paused p")
  case True
  with assms show ?thesis by (auto simp: process_def Let_def)
next
  case False
  show ?thesis
  proof (cases "pos p + int n > end' p")
    case True
    with process_unpaused [OF False assms]
    have "p' = p\<lparr>track := next' p, pos := start p + int n\<rparr>" by auto
    with True False show ?thesis by simp
  next
    case no_wrap: False
    with process_unpaused [OF False assms]
    have "p' = p\<lparr>track := next' p, pos := pos p + int n\<rparr>" by auto
    with no_wrap False show ?thesis by simp
  qed
qed

lemma process_paused:
  "paused p \<Longrightarrow> 0 \<le> channels p \<Longrightarrow>
     process n tracks p = Some (p, replicate (nat (int n * channels p)) 0)"
  by (simp add: process_def memset_zero_def)

text \<open>
  A callback on a player that is not paused accesses no sample outside a buffer when
  the tracks are padded, the frame count is that of the window, and position and loop
  start lie in the reference length.
\<close>

lemma process_in_bounds:
  assumes "\<not> paused p"
    and "0 \<le> track p" "track p < int (length tracks)"
    and "0 \<le> next' p" "next' p < int (length tracks)"
    and "\<forall>t\<in>set tracks. padded p t" and "0 < channels p"
    and "int n = LATENCY * samplerate p sdiv 1000"
    and "fade_samples p \<le> length (window p)"
    and "0 \<le> pos p" "pos p \<le> length' p" "0 \<le> start p" "start p \<le> length' p"
  shows "\<exists>p' out. process n tracks p = Some (p', out)"
proof -
  let ?c = "channels p" and ?W = "LATENCY * samplerate p sdiv 1000"
  let ?t0 = "tracks ! nat (track p)" and ?t1 = "tracks ! nat (next' p)"
  have t0: "track_at tracks (track p) = Some ?t0" and t1: "track_at tracks (next' p) = Some ?t1"
    using assms(2-5) by (simp_all add: track_at_def)
  have "?t0 \<in> set tracks" "?t1 \<in> set tracks"
    using assms(2-5) by simp_all
  with assms(6) have len: "(length' p + ?W) * ?c \<le> int (length (track.pcm ?t0))"
    "(length' p + ?W) * ?c \<le> int (length (track.pcm ?t1))"
    by (simp_all add: padded_def)
  have W: "0 \<le> ?W" using assms(8) by simp
  have cnt: "int n * ?c = ?W * ?c" using assms(8) by simp
  have room: "x * ?c + ?W * ?c \<le> (length' p + ?W) * ?c" if "x \<le> length' p" for x
  proof -
    have "x * ?c + ?W * ?c = (x + ?W) * ?c" by (simp add: distrib_right)
    also have "\<dots> \<le> (length' p + ?W) * ?c"
      using that assms(7) by (intro mult_right_mono) simp_all
    finally show ?thesis .
  qed
  have nn: "0 \<le> x * ?c" if "0 \<le> x" for x using that assms(7) by simp
  have "memcpy_from (track.pcm ?t0, pos p * ?c) (int n * ?c) \<noteq> None"
    using room [OF assms(11)] nn [OF assms(10)] nn [OF W] len(1)
    by (simp add: memcpy_from_def cnt)
  then obtain out0 where out0: "memcpy_from (track.pcm ?t0, pos p * ?c) (int n * ?c) = Some out0"
    by blast
  have l0: "int (length out0) = ?W * ?c"
    using memcpy_from_nth(1) [OF out0] nn [OF W] by (simp add: cnt)
  have win: "?W * ?c \<le> int (length (window p))"
    using assms(9) nn [OF W] by (simp add: fade_samples_def)
  have fade: "apply_window q out (track.pcm ?t1, x * ?c) \<noteq> None"
    if "channels q = ?c" "samplerate q = samplerate p" "window q = window p"
      "int (length out) = ?W * ?c" "0 \<le> x" "x \<le> length' p" for q :: "'a player" and out x
    using that(1-4) room [OF that(6)] nn [OF that(5)] len(2) win
    by (simp add: apply_window_def Let_def)
  from fade [of p out0 "pos p"] l0 assms(10,11)
  obtain out1 where out1: "track p \<noteq> next' p \<Longrightarrow>
      apply_window p out0 (track.pcm ?t1, pos p * ?c) = Some out1"
    and "track p = next' p \<Longrightarrow> out1 = out0"
    by (cases "track p = next' p") auto
  then have l1: "int (length out1) = ?W * ?c"
    using apply_window_nth(1) [of p out0 _ out1] l0 by (cases "track p = next' p") auto
  from fade [of p out1 "start p"] l1 assms(12,13)
  obtain out2 where out2: "apply_window p out1 (track.pcm ?t1, start p * ?c) = Some out2"
    by auto
  show ?thesis
    using assms(1) t0 t1 out0 out1 out2 \<open>track p = next' p \<Longrightarrow> out1 = out0\<close>
    by (cases "track p = next' p") (auto simp: process_def Let_def)
qed

lemma callback_ready_returns:
  assumes "\<not> paused p" and "callback_ready n tracks p"
  shows "\<exists>p' out. process n tracks p = Some (p', out)"
  using assms by (intro process_in_bounds) (simp_all add: callback_ready_def)

lemma callback_ready_fade:
  assumes "callback_ready n tracks p"
  shows "fade_samples p = nat (int n * channels p)"
  using assms by (simp add: callback_ready_def fade_samples_def)

section \<open>Facts about the control loop\<close>

lemma main_step_nonneg: "0 \<le> samplerate p \<Longrightarrow> 0 \<le> main_step p"
  by (simp add: main_step_def STEP_def sdiv_nonneg_eq_div pos_imp_zdiv_nonneg_iff)

lemma main_switch_fields:
  "samplerate (main_switch nf step ch p) = samplerate p"
  "length' (main_switch nf step ch p) = length' p"
  "channels (main_switch nf step ch p) = channels p"
  "window (main_switch nf step ch p) = window p"
  "pos (main_switch nf step ch p) = pos p"
  "track (main_switch nf step ch p) = track p"
  by (simp_all add: main_switch_def Let_def)

text \<open>
  The clear and nudge commands keep the loop region ordered and inside the track; the
  two set commands do when the position they copy lies in the region.
\<close>

lemma main_switch_bounds:
  assumes "loop_bounds n p" "0 \<le> step" "in_region p (Key ch)"
  shows "loop_bounds n (main_switch nf step ch p)"
  using assms
  by (auto simp: loop_bounds_def main_switch_def in_region_def min'_def max'_def Let_def)

lemma process_bounds:
  assumes "loop_bounds n p" "process n tracks p = Some (p', out)"
  shows "loop_bounds n p'"
  using assms(1) process_fields [OF assms(2)] process_pos [OF assms(2)]
  by (auto simp: loop_bounds_def)

lemma step_event_bounds:
  assumes "loop_bounds n p" "0 \<le> samplerate p" "in_region p e"
    and "step_event n nf tracks p e = Some (p', outs)"
  shows "loop_bounds n p' \<and> samplerate p' = samplerate p"
proof (cases e)
  case Callback
  with assms(4) obtain out where pr: "process n tracks p = Some (p', out)"
    by (auto simp: step_event_def)
  show ?thesis
    using process_bounds [OF assms(1) pr] process_fields(5) [OF pr] by simp
next
  case (Key ch)
  with assms show ?thesis
    by (auto simp: step_event_def main_switch_fields main_switch_bounds main_step_nonneg)
qed

lemma run_events_bounds:
  assumes "loop_bounds n p" "0 \<le> samplerate p" "in_region_run n nf tracks p es"
    and "run_events n nf tracks p es = Some (p', outs)"
  shows "loop_bounds n p'"
  using assms
proof (induction es arbitrary: p outs)
  case Nil
  then show ?case by simp
next
  case (Cons e es)
  from Cons.prems(4) obtain q outs1 outs2 where q: "step_event n nf tracks p e = Some (q, outs1)"
    and r: "run_events n nf tracks q es = Some (p', outs2)"
    by (auto split: option.splits)
  from Cons.prems(3) q have a: "in_region p e" "in_region_run n nf tracks q es"
    by auto
  from step_event_bounds [OF Cons.prems(1,2) a(1) q]
  have "loop_bounds n q" "0 \<le> samplerate q" using Cons.prems(2) by auto
  from Cons.IH [OF this a(2) r] show ?case .
qed

section \<open>The two sessions, evaluated\<close>

lemma second_started_fields:
  "start second_started = 0" "pos second_started = 0" "end' second_started = 48000"
  "length' second_started = 48000" "samplerate second_started = 48000"
  "running second_started" "\<not> paused second_started" "channels second_started = 2"
  "track second_started = 0" "next' second_started = 0"
  by (simp_all add: second_started_def start_stream_def gen_window_def second_loaded_def
      zero_player_def Let_def)

lemma second_callback:
  "process 960 second_tracks second_started
     = Some (second_started\<lparr>pos := 960\<rparr>, replicate 1920 0)"
  by (simp add: process_def second_started_fields second_tracks_def track_at_def
      memcpy_from_def Let_def)

lemmas demo_eval = process_def track_at_def memcpy_from_def apply_window_def demo_tracks_def
  exact_ops_def
  demo_started_def demo_loaded_def zero_player_def LATENCY_def STEP_def signed_divide_int_def
  Let_def step_event_def main_switch_def main_step_def min'_def max'_def
  upt_rec [of 0] upt_rec [of 1] upt_rec [of "Suc 0"] numeral_2_eq_2

lemma demo_started_eq: "fst (start_stream (gen_window exact_ops id demo_loaded)) = demo_started"
  by (simp add: start_stream_def gen_window_def demo_eval)

lemma demo_callback_1:
  "process 2 demo_tracks demo_started = Some (demo_started\<lparr>pos := 2\<rparr>, [8, 4])"
  by (simp add: demo_eval)

lemma demo_callback_2:
  "process 2 demo_tracks (demo_started\<lparr>pos := 2, next' := 1\<rparr>)
     = Some (demo_started\<lparr>pos := 4, next' := 1, track := 1\<rparr>, [8, 2])"
  by (simp add: demo_eval)

lemma demo_callback_3:
  "process 2 demo_tracks (demo_started\<lparr>pos := 4, next' := 1, track := 1, end' := 4\<rparr>)
     = Some (demo_started\<lparr>pos := 2, next' := 1, track := 1, end' := 4\<rparr>, [0, 3])"
  by (simp add: demo_eval)

section \<open>The loop region and the position\<close>

text \<open>
  \<^bold>\<open>C1\<close>, as amended. Every state reached from stream start through callbacks and key
  commands has \<open>0 \<le> start \<le> end \<le> length\<close> and \<open>0 \<le> pos \<le> length + n\<close>, for runs in
  which set-start is pressed only while \<open>pos \<le> end\<close> and set-end only while
  \<open>start \<le> pos \<le> length\<close>. The position is not kept between \<open>start\<close> and \<open>end\<close>:
  the nudges clamp the two bounds against each other, not against \<open>pos\<close>, and a wrap
  leaves \<open>pos = start + n\<close>.
\<close>

theorem reachable_loop_bounds:
  assumes "start p0 = 0" and "pos p0 = 0" and "0 \<le> length' p0" and "0 \<le> samplerate p0"
    and "in_region_run n num_files tracks (fst (start_stream p0)) es"
    and "run_events n num_files tracks (fst (start_stream p0)) es = Some (p', outs)"
  shows "loop_bounds n p'"
proof -
  have "loop_bounds n (fst (start_stream p0))" "0 \<le> samplerate (fst (start_stream p0))"
    using assms(1-4) by (simp_all add: start_stream_def Let_def loop_bounds_def)
  from run_events_bounds [OF this assms(5,6)] show ?thesis .
qed

text \<open>
  A run of the small session with a switch, a wrap, a set-end and a set-start: its last
  state has the bounds.
\<close>

theorem reachable_loop_bounds_witness:
  "run_events 2 2 demo_tracks demo_started
     [Callback, Key CHR ''2'', Callback, Key CHR ''d'', Callback, Key CHR ''s'', Key CHR ''k'']
     = Some (demo_started\<lparr>pos := 2, next' := 1, track := 1, end' := 2, start := 2\<rparr>,
             [[8, 4], [8, 2], [0, 3]])
   \<and> loop_bounds 2 (demo_started\<lparr>pos := 2, next' := 1, track := 1, end' := 2, start := 2\<rparr>)"
proof -
  let ?es = "[Callback, Key CHR ''2'', Callback, Key CHR ''d'', Callback, Key CHR ''s'',
              Key CHR ''k'']"
  let ?p0 = "gen_window exact_ops id demo_loaded"
  have k: "main_switch 2 5 CHR ''2'' (demo_started\<lparr>pos := 2\<rparr>)
             = demo_started\<lparr>pos := 2, next' := 1\<rparr>"
    "main_switch 2 5 CHR ''d'' (demo_started\<lparr>pos := 4, next' := 1, track := 1\<rparr>)
             = demo_started\<lparr>pos := 4, next' := 1, track := 1, end' := 4\<rparr>"
    "main_switch 2 5 CHR ''s'' (demo_started\<lparr>pos := 2, next' := 1, track := 1, end' := 4\<rparr>)
             = demo_started\<lparr>pos := 2, next' := 1, track := 1, end' := 4, start := 2\<rparr>"
    "main_switch 2 5 CHR ''k''
        (demo_started\<lparr>pos := 2, next' := 1, track := 1, end' := 4, start := 2\<rparr>)
             = demo_started\<lparr>pos := 2, next' := 1, track := 1, end' := 2, start := 2\<rparr>"
    by (simp_all add: main_switch_def demo_started_def demo_loaded_def zero_player_def
        min'_def max'_def)
  have f: "running demo_started" "samplerate demo_started = 100" "start demo_started = 0"
    "end' demo_started = 4" "length' demo_started = 4" "pos demo_started = 0"
    by (simp_all add: demo_started_def demo_loaded_def zero_player_def)
  have s: "main_step (demo_started\<lparr>pos := 2\<rparr>) = 5"
    "main_step (demo_started\<lparr>pos := 4, next' := 1, track := 1\<rparr>) = 5"
    "main_step (demo_started\<lparr>pos := 2, next' := 1, track := 1, end' := 4\<rparr>) = 5"
    "main_step (demo_started\<lparr>pos := 2, next' := 1, track := 1, end' := 4, start := 2\<rparr>) = 5"
    by (simp_all add: main_step_def f STEP_def signed_divide_int_def)
  have run: "run_events 2 2 demo_tracks demo_started ?es
     = Some (demo_started\<lparr>pos := 2, next' := 1, track := 1, end' := 2, start := 2\<rparr>,
             [[8, 4], [8, 2], [0, 3]])"
    by (simp add: step_event_def demo_callback_1 demo_callback_2 demo_callback_3 k f s)
  have reg: "in_region_run 2 2 demo_tracks demo_started ?es"
    by (simp add: step_event_def demo_callback_1 demo_callback_2 demo_callback_3 k f s
        in_region_def)
  have init: "start ?p0 = 0" "pos ?p0 = 0" "0 \<le> length' ?p0" "0 \<le> samplerate ?p0"
    by (simp_all add: gen_window_def demo_loaded_def zero_player_def Let_def)
  from reachable_loop_bounds [OF init, of 2 2 demo_tracks ?es] run reg
  show ?thesis by (simp add: demo_started_eq)
qed

text \<open>
  The invariant as the specification has it fails after one callback and one nudge of
  the loop start: \<open>pos = 960\<close> and \<open>start = 2400\<close>.
\<close>

theorem loop_invariant_counterexample:
  "map_option (loop_invariant \<circ> fst)
     (run_events 960 1 second_tracks second_started [Callback, Key CHR ''o'']) = Some False"
  by (simp add: step_event_def second_callback main_switch_def main_step_def
      second_started_fields loop_invariant_def STEP_def min'_def)

text \<open>
  \<^bold>\<open>C2\<close>. Every loop command is to keep \<open>start \<le> end\<close>. The nudges do
  (\<open>main_switch_bounds\<close>); set-end stores \<open>pos\<close> without a clamp. One callback, pause,
  a nudge of the start and set-end leave \<open>end = 960\<close> below \<open>start = 2400\<close>.
\<close>

theorem set_end_below_start:
  "map_option fst
     (run_events 960 1 second_tracks second_started
        [Callback, Key CHR '' '', Callback, Key CHR ''o'', Key CHR ''d''])
     = Some (second_started\<lparr>pos := 960, paused := True, start := 2400, end' := 960\<rparr>)"
  by (simp add: step_event_def second_callback main_switch_def main_step_def
      second_started_fields STEP_def min'_def process_paused)

section \<open>The wrap at the loop end\<close>

text \<open>What an invocation that returns has done at the loop end.\<close>

lemma process_wrap_result:
  assumes "\<not> paused p" and "process n tracks p = Some (p', out)"
  shows "\<exists>out1 t. copy_and_switch n tracks p = Some out1
           \<and> track_at tracks (track p') = Some t
           \<and> length out = nat (int n * channels p) \<and> length out1 = length out
           \<and> (if pos p + int n > end' p
               then pos p' = start p + int n
                 \<and> (\<forall>i<length out. out ! i =
                       (if i < fade_samples p
                        then blend (window p ! i) (out1 ! i)
                               (track.pcm t ! (nat (start p * channels p) + i))
                        else out1 ! i))
               else pos p' = pos p + int n \<and> out = out1)"
proof -
  from process_unpaused [OF assms] obtain out1 t where
    cs: "copy_and_switch n tracks p = Some out1"
    and t: "track_at tracks (next' p) = Some t"
    and len: "length out1 = nat (int n * channels p)"
    and wrap: "pos p + int n > end' p \<Longrightarrow>
        p' = p\<lparr>track := next' p, pos := start p + int n\<rparr>
        \<and> apply_window p out1 (track.pcm t, start p * channels p) = Some out"
    and plain: "\<not> pos p + int n > end' p \<Longrightarrow>
        p' = p\<lparr>track := next' p, pos := pos p + int n\<rparr> \<and> out = out1"
    by (auto split: if_splits)
  have tr: "track p' = next' p"
    using wrap plain by (cases "pos p + int n > end' p") auto
  show ?thesis
  proof (cases "pos p + int n > end' p")
    case True
    with wrap have aw: "apply_window p out1 (track.pcm t, start p * channels p) = Some out"
      and p': "pos p' = start p + int n" by auto
    from apply_window_nth [OF aw] have "length out = length out1"
      and "\<And>i. i < length out1 \<Longrightarrow> out ! i =
             (if i < fade_samples p
              then blend (window p ! i) (out1 ! i) (track.pcm t ! (nat (start p * channels p) + i))
              else out1 ! i)"
      by auto
    with cs t len True p' tr show ?thesis by auto
  next
    case False
    with plain cs t len tr show ?thesis by auto
  qed
qed

text \<open>
  \<^bold>\<open>C3\<close>. An invocation on a ready player that is not paused returns. Let \<open>out1\<close> be
  the buffer when the position is advanced and \<open>t\<close> the track that is current then. If
  \<open>pos + n\<close> exceeds \<open>end\<close>, every slot of the \<open>n\<close>-frame buffer is the blend of \<open>out1\<close>
  with the samples of \<open>t\<close> from frame \<open>start\<close> on, and the position becomes
  \<open>start + n\<close>; otherwise the buffer is \<open>out1\<close> and the position \<open>pos + n\<close>.
\<close>

theorem loop_wrap_crossfade:
  assumes "\<not> paused p" and "callback_ready n tracks p"
  shows "\<exists>p' out out1 t. process n tracks p = Some (p', out)
           \<and> copy_and_switch n tracks p = Some out1
           \<and> track_at tracks (track p') = Some t
           \<and> length out = nat (int n * channels p) \<and> length out1 = length out
           \<and> (if pos p + int n > end' p
               then pos p' = start p + int n
                 \<and> (\<forall>i<length out. out ! i =
                        blend (window p ! i) (out1 ! i)
                          (track.pcm t ! (nat (start p * channels p) + i)))
               else pos p' = pos p + int n \<and> out = out1)"
proof -
  from callback_ready_returns [OF assms] obtain p' out
    where pr: "process n tracks p = Some (p', out)" by blast
  from process_wrap_result [OF assms(1) pr] obtain out1 t where
    cs: "copy_and_switch n tracks p = Some out1"
    and t: "track_at tracks (track p') = Some t"
    and len: "length out = nat (int n * channels p)" "length out1 = length out"
    and res: "if pos p + int n > end' p
               then pos p' = start p + int n
                 \<and> (\<forall>i<length out. out ! i =
                       (if i < fade_samples p
                        then blend (window p ! i) (out1 ! i)
                               (track.pcm t ! (nat (start p * channels p) + i))
                        else out1 ! i))
               else pos p' = pos p + int n \<and> out = out1"
    by blast
  have fade: "fade_samples p = length out"
    using callback_ready_fade [OF assms(2)] len(1) by simp
  have "if pos p + int n > end' p
               then pos p' = start p + int n
                 \<and> (\<forall>i<length out. out ! i =
                        blend (window p ! i) (out1 ! i)
                          (track.pcm t ! (nat (start p * channels p) + i)))
               else pos p' = pos p + int n \<and> out = out1"
    using res by (simp add: fade)
  with pr cs t len show ?thesis by blast
qed


text \<open>
  The third callback of the small session wraps: the buffer \<open>[0, 0]\<close> copied from the
  padding is blended with the frames \<open>[2, 6]\<close> at the loop start.
\<close>

theorem loop_wrap_crossfade_witness:
  "process 2 demo_tracks (demo_started\<lparr>pos := 4, next' := 1, track := 1, end' := 4\<rparr>)
     = Some (demo_started\<lparr>pos := 2, next' := 1, track := 1, end' := 4\<rparr>, [0, 3])
   \<and> copy_and_switch 2 demo_tracks (demo_started\<lparr>pos := 4, next' := 1, track := 1, end' := 4\<rparr>)
     = Some [0, 0]
   \<and> [0, 3] ! 1 = blend (1 / 2) 0 (6::real)"
proof -
  let ?p = "demo_started\<lparr>pos := 4, next' := 1, track := 1, end' := 4\<rparr>"
  let ?p' = "demo_started\<lparr>pos := 2, next' := 1, track := 1, end' := 4\<rparr>"
  have np: "\<not> paused ?p"
    by (simp add: demo_started_def demo_loaded_def zero_player_def)
  have rd: "callback_ready 2 demo_tracks ?p"
    by (simp add: callback_ready_def padded_def fade_samples_def demo_eval)
  have cs: "copy_and_switch 2 demo_tracks ?p = Some [0, 0]"
    by (simp add: copy_and_switch_def demo_eval)
  have f: "pos ?p + int 2 > end' ?p" "window ?p = [1, 1 / 2]"
    "start ?p * channels ?p = 0" "track ?p' = 1"
    by (simp_all add: demo_eval)
  have t: "track_at demo_tracks 1 = Some (demo_tracks ! 1)"
    by (simp add: track_at_def demo_tracks_def)
  from loop_wrap_crossfade [OF np rd] obtain p' out out1 t where
    pr: "process 2 demo_tracks ?p = Some (p', out)"
    and c: "copy_and_switch 2 demo_tracks ?p = Some out1"
    and tt: "track_at demo_tracks (track p') = Some t"
    and w: "\<forall>i<length out. out ! i =
         blend (window ?p ! i) (out1 ! i) (track.pcm t ! (nat (start ?p * channels ?p) + i))"
    using f(1) by auto
  from pr demo_callback_3 have e: "p' = ?p'" "out = [0, 3]" by simp_all
  from c cs have o: "out1 = [0, 0]" by simp
  from tt t have tq: "t = demo_tracks ! 1" unfolding e f(4) by simp
  from w [rule_format, of 1] have "[0, 3 :: real] ! 1 =
         blend (window ?p ! 1) ([0, 0] ! 1) (track.pcm (demo_tracks ! 1) ! (nat (start ?p * channels ?p) + 1))"
    unfolding e o tq by simp
  then have "[0, 3] ! 1 = blend (1 / 2) 0 (track.pcm (demo_tracks ! 1) ! 1)"
    unfolding f(2,3) by simp
  then show ?thesis
    using demo_callback_3 cs by (simp add: demo_tracks_def)
qed

section \<open>Pause\<close>

lemma run_events_paused_callbacks:
  assumes "paused q" "0 \<le> channels q"
  shows "run_events n nf tracks q (replicate k Callback @ es)
     = map_option (map_prod id ((@) (replicate k (replicate (nat (int n * channels q)) 0))))
         (run_events n nf tracks q es)"
proof (induction k)
  case 0
  show ?case by (cases "run_events n nf tracks q es") auto
next
  case (Suc k)
  show ?case
    by (cases "run_events n nf tracks q es")
      (auto simp: step_event_def process_paused [OF assms] Suc)
qed

text \<open>
  \<^bold>\<open>C4\<close>. A callback on a paused player fills the \<open>n * ch\<close> slots with zero and returns
  the player as it was, so position, current and next track are unchanged. Pausing for
  \<open>k\<close> callbacks and resuming only inserts \<open>k\<close> silent buffers: the final player and all
  later buffers are those of the run without the pause.
\<close>

theorem pause_inserts_silence:
  assumes "0 \<le> channels p"
  shows "(paused p \<longrightarrow> process n tracks p = Some (p, replicate (nat (int n * channels p)) 0))
    \<and> (\<not> paused p \<and> running p \<longrightarrow>
         run_events n num_files tracks p
           (Key CHR '' '' # replicate k Callback @ Key CHR '' '' # es)
         = map_option (map_prod id ((@) (replicate k (replicate (nat (int n * channels p)) 0))))
             (run_events n num_files tracks p es))"
proof (intro conjI impI)
  assume "paused p"
  then show "process n tracks p = Some (p, replicate (nat (int n * channels p)) 0)"
    using assms by (rule process_paused)
next
  assume a: "\<not> paused p \<and> running p"
  let ?q = "p\<lparr>paused := True\<rparr>"
  have q: "paused ?q" "0 \<le> channels ?q" "channels ?q = channels p" using assms by simp_all
  have again: "main_switch num_files (main_step ?q) CHR '' '' ?q = p"
    using a by (simp add: main_switch_def)
  have "run_events n num_files tracks p (Key CHR '' '' # replicate k Callback @ Key CHR '' '' # es)
      = run_events n num_files tracks ?q (replicate k Callback @ Key CHR '' '' # es)"
    using a by (cases "run_events n num_files tracks ?q (replicate k Callback @ Key CHR '' '' # es)")
      (auto simp: step_event_def main_switch_def)
  also have "\<dots> = map_option (map_prod id ((@) (replicate k (replicate (nat (int n * channels p)) 0))))
         (run_events n num_files tracks ?q (Key CHR '' '' # es))"
    using run_events_paused_callbacks [OF q(1,2)] by (simp only: q(3))
  also have "run_events n num_files tracks ?q (Key CHR '' '' # es) = run_events n num_files tracks p es"
    using a again by (cases "run_events n num_files tracks p es") (auto simp: step_event_def)
  finally show "run_events n num_files tracks p
           (Key CHR '' '' # replicate k Callback @ Key CHR '' '' # es)
         = map_option (map_prod id ((@) (replicate k (replicate (nat (int n * channels p)) 0))))
             (run_events n num_files tracks p es)" .
qed

text \<open>The small session paused for two callbacks before its first buffer.\<close>

theorem pause_inserts_silence_witness:
  "process 2 demo_tracks (demo_started\<lparr>paused := True\<rparr>)
     = Some (demo_started\<lparr>paused := True\<rparr>, [0, 0])
   \<and> run_events 2 2 demo_tracks demo_started
       [Key CHR '' '', Callback, Callback, Key CHR '' '', Callback]
     = Some (demo_started\<lparr>pos := 2\<rparr>, [[0, 0], [0, 0], [8, 4]])"
proof -
  have f: "0 \<le> channels demo_started" "\<not> paused demo_started" "running demo_started"
    by (simp_all add: demo_started_def demo_loaded_def zero_player_def)
  have c: "nat (int 2 * channels demo_started) = 2"
    by (simp add: demo_started_def demo_loaded_def zero_player_def)
  have r: "run_events 2 2 demo_tracks demo_started [Callback]
     = Some (demo_started\<lparr>pos := 2\<rparr>, [[8, 4]])"
    by (simp add: step_event_def demo_callback_1)
  have rep: "replicate 2 x = [x, x]" for x :: 'b
    by (simp add: numeral_2_eq_2)
  have es: "[Key CHR '' '', Callback, Callback, Key CHR '' '', Callback]
      = Key CHR '' '' # replicate 2 Callback @ Key CHR '' '' # [Callback]"
    by (simp add: rep)
  from pause_inserts_silence [of "demo_started\<lparr>paused := True\<rparr>" 2 demo_tracks]
  have a: "process 2 demo_tracks (demo_started\<lparr>paused := True\<rparr>)
     = Some (demo_started\<lparr>paused := True\<rparr>, [0, 0])"
    using f c by (simp add: rep)
  from pause_inserts_silence [of demo_started 2 demo_tracks 2 2 "[Callback]"] f
  have "run_events 2 2 demo_tracks demo_started
       (Key CHR '' '' # replicate 2 Callback @ Key CHR '' '' # [Callback])
     = map_option (map_prod id ((@) (replicate 2 (replicate (nat (int 2 * channels demo_started)) 0))))
         (run_events 2 2 demo_tracks demo_started [Callback])"
    by blast
  then have "run_events 2 2 demo_tracks demo_started
       (Key CHR '' '' # replicate 2 Callback @ Key CHR '' '' # [Callback])
     = Some (demo_started\<lparr>pos := 2\<rparr>, [[0, 0], [0, 0], [8, 4]])"
    unfolding r c by (simp add: rep)
  with a show ?thesis unfolding es by blast
qed

section \<open>The track switch\<close>

text \<open>
  \<^bold>\<open>C5\<close>, as amended. An invocation on a ready player that is not paused, with a switch
  armed, returns and commits \<open>track = next\<close>. When it does not also wrap
  (\<open>pos + n \<le> end\<close>), every slot is the blend of the two tracks read at the same
  position \<open>pos\<close>. When it wraps, every slot is the blend of that value with the next
  track read from frame \<open>start\<close> on: the wrap cross-fade is applied on top.
\<close>

theorem track_switch_crossfade:
  assumes "\<not> paused p" and "track p \<noteq> next' p" and "callback_ready n tracks p"
  shows "\<exists>p' out t0 t1. process n tracks p = Some (p', out)
    \<and> track p' = next' p \<and> next' p' = next' p
    \<and> track_at tracks (track p) = Some t0 \<and> track_at tracks (next' p) = Some t1
    \<and> length out = nat (int n * channels p)
    \<and> (if pos p + int n \<le> end' p
        then pos p' = pos p + int n
          \<and> (\<forall>i<length out. out ! i =
                 blend (window p ! i) (track.pcm t0 ! (nat (pos p * channels p) + i))
                   (track.pcm t1 ! (nat (pos p * channels p) + i)))
        else pos p' = start p + int n
          \<and> (\<forall>i<length out. out ! i =
                 blend (window p ! i)
                   (blend (window p ! i) (track.pcm t0 ! (nat (pos p * channels p) + i))
                      (track.pcm t1 ! (nat (pos p * channels p) + i)))
                   (track.pcm t1 ! (nat (start p * channels p) + i))))"
proof -
  from callback_ready_returns [OF assms(1,3)] obtain p' out
    where pr: "process n tracks p = Some (p', out)" by blast
  from process_unpaused [OF assms(1) pr] obtain out1 t where
    cs: "copy_and_switch n tracks p = Some out1"
    and t: "track_at tracks (next' p) = Some t"
    and wrap: "pos p + int n > end' p \<Longrightarrow>
        p' = p\<lparr>track := next' p, pos := start p + int n\<rparr>
        \<and> apply_window p out1 (track.pcm t, start p * channels p) = Some out"
    and plain: "\<not> pos p + int n > end' p \<Longrightarrow>
        p' = p\<lparr>track := next' p, pos := pos p + int n\<rparr> \<and> out = out1"
    by (auto split: if_splits)
  have tr: "track p' = next' p" "next' p' = next' p"
    using wrap plain by (cases "pos p + int n > end' p"; simp)+
  from cs assms(2) t obtain t0 out0 where t0: "track_at tracks (track p) = Some t0"
    and out0: "memcpy_from (track.pcm t0, pos p * channels p) (int n * channels p) = Some out0"
    and aw: "apply_window p out0 (track.pcm t, pos p * channels p) = Some out1"
    by (auto simp: copy_and_switch_def split: bind_splits)
  have len: "length out1 = nat (int n * channels p)" "length out0 = length out1"
    using apply_window_nth(1) [OF aw] memcpy_from_nth(1) [OF out0] by simp_all
  have fade: "fade_samples p = length out1"
    using callback_ready_fade [OF assms(3)] len(1) by simp
  have nth1: "out1 ! i = blend (window p ! i) (track.pcm t0 ! (nat (pos p * channels p) + i))
                            (track.pcm t ! (nat (pos p * channels p) + i))"
    if "i < length out1" for i
    using apply_window_nth(2) [OF aw, of i] memcpy_from_nth(2) [OF out0, of i] that len fade
    by simp
  show ?thesis
  proof (cases "pos p + int n \<le> end' p")
    case True
    with plain have "pos p' = pos p + int n" "out = out1" by simp_all
    with True pr tr t0 t len(1) nth1 show ?thesis by auto
  next
    case False
    with wrap have p': "pos p' = start p + int n"
      and aw2: "apply_window p out1 (track.pcm t, start p * channels p) = Some out"
      by simp_all
    have l2: "length out = length out1"
      using apply_window_nth(1) [OF aw2] .
    have "out ! i = blend (window p ! i)
                   (blend (window p ! i) (track.pcm t0 ! (nat (pos p * channels p) + i))
                      (track.pcm t ! (nat (pos p * channels p) + i)))
                   (track.pcm t ! (nat (start p * channels p) + i))"
      if "i < length out" for i
      using apply_window_nth(2) [OF aw2, of i] nth1 [of i] that l2 fade by simp
    with False pr tr t0 t len(1) l2 p' show ?thesis by auto
  qed
qed


text \<open>The second callback of the small session: a switch at frame 2 without a wrap.\<close>

theorem track_switch_crossfade_witness:
  "process 2 demo_tracks (demo_started\<lparr>pos := 2, next' := 1\<rparr>)
     = Some (demo_started\<lparr>pos := 4, next' := 1, track := 1\<rparr>, [8, 2])
   \<and> [8, 2] ! 1 = blend (1 / 2) 4 (0::real)"
proof -
  let ?p = "demo_started\<lparr>pos := 2, next' := 1\<rparr>"
  have f: "\<not> paused ?p" "track ?p \<noteq> next' ?p" "pos ?p + int 2 \<le> end' ?p"
    "window ?p = [1, 1 / 2]" "pos ?p * channels ?p = 2"
    "track ?p = 0" "next' ?p = 1"
    by (simp_all add: demo_eval)
  have rd: "callback_ready 2 demo_tracks ?p"
    by (simp add: callback_ready_def padded_def fade_samples_def demo_eval)
  have t: "track_at demo_tracks 0 = Some (demo_tracks ! 0)"
    "track_at demo_tracks 1 = Some (demo_tracks ! 1)"
    by (simp_all add: track_at_def demo_tracks_def)
  from track_switch_crossfade [OF f(1,2) rd] f(3) obtain p' out t0 t1 where
    pr: "process 2 demo_tracks ?p = Some (p', out)"
    and tt: "track_at demo_tracks (track ?p) = Some t0" "track_at demo_tracks (next' ?p) = Some t1"
    and w: "\<forall>i<length out. out ! i =
         blend (window ?p ! i) (track.pcm t0 ! (nat (pos ?p * channels ?p) + i))
                 (track.pcm t1 ! (nat (pos ?p * channels ?p) + i))"
    by auto
  from pr demo_callback_2 have o: "out = [8, 2]" by simp
  from tt have e: "t0 = demo_tracks ! 0" "t1 = demo_tracks ! 1"
    unfolding f(6,7) t by simp_all
  from w [rule_format, of 1] have "[8, 2 :: real] ! 1 =
         blend (window ?p ! 1) (track.pcm (demo_tracks ! 0) ! (nat (pos ?p * channels ?p) + 1))
                 (track.pcm (demo_tracks ! 1) ! (nat (pos ?p * channels ?p) + 1))"
    unfolding o e by simp
  then have "[8, 2] ! 1 = blend (1 / 2) (track.pcm (demo_tracks ! 0) ! 3)
      (track.pcm (demo_tracks ! 1) ! 3)"
    unfolding f(4,5) by simp
  then show ?thesis
    using demo_callback_2 by (simp add: demo_tracks_def)
qed

text \<open>
  A switch armed with the loop end at frame 0: the invocation also wraps, and slot 1
  holds \<open>11 / 2\<close> where the blend of the two tracks at \<open>pos\<close> is \<open>5\<close>.
\<close>

theorem track_switch_counterexample:
  "\<not> paused (demo_started\<lparr>next' := 1, end' := 0\<rparr>)
   \<and> track (demo_started\<lparr>next' := 1, end' := 0\<rparr>) \<noteq> next' (demo_started\<lparr>next' := 1, end' := 0\<rparr>)
   \<and> process 2 demo_tracks (demo_started\<lparr>next' := 1, end' := 0\<rparr>)
       = Some (demo_started\<lparr>next' := 1, end' := 0, track := 1, pos := 2\<rparr>, [8, 11 / 2])
   \<and> blend (window (demo_started\<lparr>next' := 1, end' := 0\<rparr>) ! 1)
        (track.pcm (demo_tracks ! 0) ! 1) (track.pcm (demo_tracks ! 1) ! 1) = 5"
  by (simp add: demo_eval blend_def)

text \<open>That player is the small session after the keys \<open>2\<close> and \<open>k\<close>.\<close>

lemma demo_armed_at_end:
  "map_option fst (run_events 2 2 demo_tracks demo_started [Key CHR ''2'', Key CHR ''k''])
     = Some (demo_started\<lparr>next' := 1, end' := 0\<rparr>)"
  by (simp add: demo_eval)


section \<open>The window coefficients\<close>

lemma concat_frames:
  "length (concat (map (\<lambda>i. map (\<lambda>c. f i) [0..<m]) [0..<n])) = n * m
   \<and> (\<forall>k<n * m. concat (map (\<lambda>i. map (\<lambda>c. f i) [0..<m]) [0..<n]) ! k = f (k div m))"
proof (induction n)
  case 0
  show ?case by simp
next
  case (Suc n)
  then have len: "length (concat (map (\<lambda>i. map (\<lambda>c. f i) [0..<m]) [0..<n])) = n * m"
    and nth: "\<And>k. k < n * m \<Longrightarrow>
        concat (map (\<lambda>i. map (\<lambda>c. f i) [0..<m]) [0..<n]) ! k = f (k div m)"
    by auto
  have "concat (map (\<lambda>i. map (\<lambda>c. f i) [0..<m]) [0..<Suc n]) ! k = f (k div m)"
    if k: "k < Suc n * m" for k
  proof (cases "k < n * m")
    case True
    then show ?thesis by (simp add: nth_append len nth)
  next
    case False
    then have "k div m = n"
      using k by (auto simp add: div_nat_eqI mult.commute)
    moreover have "k - n * m < m" using k False by auto
    ultimately show ?thesis using False by (simp add: nth_append len)
  qed
  then show ?case by (simp add: len)
qed

lemma gen_window_length:
  "length (window (gen_window ops to_float p))
     = nat (LATENCY * samplerate p sdiv 1000) * nat (channels p)"
  using concat_frames [of "\<lambda>i. to_float (coefficient ops i (LATENCY * samplerate p sdiv 1000))"
        "nat (channels p)" "nat (LATENCY * samplerate p sdiv 1000)"]
  by (simp add: gen_window_def coefficient_def Let_def)

lemma gen_window_nth:
  assumes "k < nat (LATENCY * samplerate p sdiv 1000) * nat (channels p)"
  shows "window (gen_window ops to_float p) ! k
     = to_float (coefficient ops (k div nat (channels p)) (LATENCY * samplerate p sdiv 1000))"
  using concat_frames [of "\<lambda>i. to_float (coefficient ops i (LATENCY * samplerate p sdiv 1000))"
        "nat (channels p)" "nat (LATENCY * samplerate p sdiv 1000)"] assms
  by (simp add: gen_window_def coefficient_def Let_def)

lemma gen_window_fields:
  "channels (gen_window ops f p) = channels p" "samplerate (gen_window ops f p) = samplerate p"
  "length' (gen_window ops f p) = length' p" "pos (gen_window ops f p) = pos p"
  "start (gen_window ops f p) = start p"
  by (simp_all add: gen_window_def Let_def)

lemma raised_cosine_antimono:
  assumes "i \<le> j" "j \<le> n" "0 < n"
  shows "0.5 + 0.5 * cos (pi * real j / real n) \<le> 0.5 + 0.5 * cos (pi * real i / real n)"
proof -
  have "pi * real i / real n \<le> pi * real j / real n"
    using assms by (simp add: divide_le_cancel mult_left_mono)
  moreover have "pi * real j / real n \<le> pi"
    using assms by (simp add: divide_le_eq mult_left_mono)
  moreover have "0 \<le> pi * real i / real n" by simp
  ultimately have "cos (pi * real j / real n) \<le> cos (pi * real i / real n)"
    by (intro cos_monotone_0_pi_le)
  then show ?thesis by simp
qed

lemma raised_cosine_last:
  assumes "0 < n"
  shows "0.5 + 0.5 * cos (pi * real (n - 1) / real n) = (sin (pi / (2 * real n)))\<^sup>2"
proof -
  have "pi * real (n - 1) / real n = pi - pi / real n"
    using assms by (simp add: field_simps of_nat_diff)
  then have "cos (pi * real (n - 1) / real n) = - cos (pi / real n)"
    by (simp add: cos_diff)
  moreover have "cos (pi / real n) = 1 - 2 * (sin (pi / (2 * real n)))\<^sup>2"
    using cos_double_sin [of "pi / (2 * real n)"] by simp
  ultimately show ?thesis by (simp add: field_simps)
qed

lemma sin_squared_le: "(sin x)\<^sup>2 \<le> x\<^sup>2" for x :: real
  using abs_sin_x_le_abs_x [of x] abs_le_square_iff by blast


lemma cos_lipschitz: "\<bar>cos a - cos b\<bar> \<le> \<bar>a - b\<bar>" for a b :: real
proof -
  have "cos a - cos b = 2 * sin ((a + b) / 2) * sin ((b - a) / 2)"
    by (rule cos_diff_cos)
  then have "\<bar>cos a - cos b\<bar> = 2 * \<bar>sin ((a + b) / 2)\<bar> * \<bar>sin ((b - a) / 2)\<bar>"
    by (simp add: abs_mult)
  also have "\<dots> \<le> 2 * 1 * \<bar>(b - a) / 2\<bar>"
    using abs_sin_x_le_abs_x [of "(b - a) / 2"] abs_sin_le_one [of "(a + b) / 2"]
    by (intro mult_mono) simp_all
  also have "\<dots> = \<bar>a - b\<bar>" by (simp add: abs_minus_commute)
  finally show ?thesis .
qed

lemma coefficient_error:
  assumes "rounds_within ops n u e_pi e_cos" and "i < n"
  shows "\<bar>coefficient ops i (int n) - raised_cosine i n\<bar> \<le> window_error u e_pi e_cos"
proof -
  define M where "M = M_PI ops"
  define m where "m = mul_d ops M (real i)"
  define q where "q = div_d ops m (real n)"
  define c where "c = cos_d ops q"
  define h where "h = mul_d ops 0.5 c"
  define w where "w = add_d ops 0.5 h"
  define x where "x = pi * real i / real n"
  define P where "P = pi + e_pi"
  define A where "A = e_pi + u * P * (2 + u)"
  define B where "B = e_cos + A"
  define C where "C = B / 2 + u * (1 + B) / 2"
  have n: "0 < n" using assms(2) by simp
  from assms have u: "0 \<le> u" and ec: "0 \<le> e_cos" and pi_err: "\<bar>M - pi\<bar> \<le> e_pi"
    and r1: "\<bar>m - M * real i\<bar> \<le> u * \<bar>M * real i\<bar>"
    and r2: "\<bar>q - m / real n\<bar> \<le> u * \<bar>m / real n\<bar>"
    and r3: "\<bar>c - cos q\<bar> \<le> e_cos"
    and r4: "\<bar>h - 0.5 * c\<bar> \<le> u * \<bar>0.5 * c\<bar>"
    and r5: "\<bar>w - (0.5 + h)\<bar> \<le> u * \<bar>0.5 + h\<bar>"
    unfolding rounds_within_def M_def m_def q_def c_def h_def w_def
    by (simp_all add: Let_def)
  have ep: "0 \<le> e_pi" using pi_err by linarith
  have P: "0 \<le> P" "\<bar>M\<bar> \<le> P" using pi_err ep pi_ge_zero unfolding P_def by linarith+
  have uP: "0 \<le> u * P" using u P(1) by simp
  have "\<bar>M * real i\<bar> \<le> P * real i"
    using P(2) by (simp add: abs_mult mult_right_mono)
  then have "u * \<bar>M * real i\<bar> \<le> u * (P * real i)"
    using u by (rule mult_left_mono)
  with r1 have b: "\<bar>m - M * real i\<bar> \<le> u * P * real i" by simp
  have c': "\<bar>M * real i - pi * real i\<bar> \<le> e_pi * real i"
  proof -
    have "\<bar>M * real i - pi * real i\<bar> = \<bar>M - pi\<bar> * real i"
      by (simp add: abs_mult left_diff_distrib [symmetric])
    also have "\<dots> \<le> e_pi * real i" using pi_err by (simp add: mult_right_mono)
    finally show ?thesis .
  qed
  have d: "\<bar>m - pi * real i\<bar> \<le> (e_pi + u * P) * real i"
    using b c' by (simp add: distrib_right)
  have in1: "real i / real n \<le> 1" using assms(2) by simp
  have e: "\<bar>m / real n - x\<bar> \<le> e_pi + u * P"
  proof -
    have "m / real n - x = (m - pi * real i) / real n"
      unfolding x_def by (simp add: diff_divide_distrib)
    then have "\<bar>m / real n - x\<bar> = \<bar>m - pi * real i\<bar> / real n"
      by simp
    also have "\<dots> \<le> (e_pi + u * P) * real i / real n"
      using d n by (intro divide_right_mono) simp_all
    also have "\<dots> = (e_pi + u * P) * (real i / real n)" by simp
    also have "\<dots> \<le> (e_pi + u * P) * 1"
      using in1 ep uP by (intro mult_left_mono) simp_all
    finally show ?thesis by simp
  qed
  have x: "0 \<le> x" "x \<le> pi"
  proof -
    show "0 \<le> x" unfolding x_def by simp
    have "x = pi * (real i / real n)" unfolding x_def by simp
    also have "\<dots> \<le> pi * 1" using in1 by (intro mult_left_mono) simp_all
    finally show "x \<le> pi" by simp
  qed
  have f: "\<bar>m / real n\<bar> \<le> P + u * P"
    using e x unfolding P_def by linarith
  have "u * \<bar>m / real n\<bar> \<le> u * (P + u * P)"
    using f u by (rule mult_left_mono)
  with r2 have g: "\<bar>q - m / real n\<bar> \<le> u * (P + u * P)" by simp
  have hA: "\<bar>q - x\<bar> \<le> A"
  proof -
    have "\<bar>q - x\<bar> \<le> u * (P + u * P) + (e_pi + u * P)"
      using g e by linarith
    also have "\<dots> = A" unfolding A_def by (simp add: algebra_simps)
    finally show ?thesis .
  qed
  have A: "0 \<le> A" using hA by linarith
  have B: "0 \<le> B" using A ec unfolding B_def by simp
  have i': "\<bar>c - cos x\<bar> \<le> B"
    using r3 cos_lipschitz [of q x] hA unfolding B_def by linarith
  have j: "\<bar>c\<bar> \<le> 1 + B"
    using i' abs_cos_le_one [of x] by linarith
  have "u * \<bar>0.5 * c\<bar> \<le> u * ((1 + B) / 2)"
    using j u by (intro mult_left_mono) (simp_all add: abs_mult)
  with r4 have k: "\<bar>h - 0.5 * c\<bar> \<le> u * (1 + B) / 2" by simp
  have l: "\<bar>h - 0.5 * cos x\<bar> \<le> C"
    using k i' unfolding C_def by linarith
  have C: "0 \<le> C" using l by linarith
  have mm: "\<bar>0.5 + h\<bar> \<le> 1 + C"
    using l abs_cos_le_one [of x] by linarith
  have "u * \<bar>0.5 + h\<bar> \<le> u * (1 + C)"
    using mm u by (rule mult_left_mono)
  with r5 have nn: "\<bar>w - (0.5 + h)\<bar> \<le> u * (1 + C)" by simp
  have "\<bar>w - (0.5 + 0.5 * cos x)\<bar> \<le> C + u * (1 + C)"
    using nn l by linarith
  moreover have "window_error u e_pi e_cos = C + u * (1 + C)"
    unfolding window_error_def C_def B_def A_def P_def by (simp add: Let_def)
  moreover have "coefficient ops i (int n) = w"
    unfolding coefficient_def w_def h_def c_def q_def m_def M_def by simp
  moreover have "raised_cosine i n = 0.5 + 0.5 * cos x"
    unfolding raised_cosine_def x_def by simp
  ultimately show ?thesis by simp
qed


lemma sin_ge_at_ends:
  assumes "0 \<le> a" "a \<le> t" "t \<le> pi - a"
  shows "sin a \<le> sin t"
proof (cases "t \<le> pi / 2")
  case True
  with assms show ?thesis by (intro sin_monotone_2pi_le) (use pi_ge_zero in linarith)+
next
  case False
  have "sin a \<le> sin (pi - t)"
    using assms False by (intro sin_monotone_2pi_le) (use pi_ge_zero in linarith)+
  then show ?thesis by simp
qed

lemma raised_cosine_step:
  assumes "Suc i < n"
  shows "(sin (pi / (2 * real n)))\<^sup>2 \<le> raised_cosine i n - raised_cosine (Suc i) n"
proof -
  define h where "h = pi / (2 * real n)"
  define k where "k = 2 * real i + 1"
  let ?a = "pi * real i / real n" and ?b = "pi * real (Suc i) / real n"
  have n: "0 < real n" using assms by simp
  have mid: "(?a + ?b) / 2 = k * h" and half: "(?b - ?a) / 2 = h"
    unfolding h_def k_def using n by (simp_all add: field_simps)
  have "raised_cosine i n - raised_cosine (Suc i) n = (cos ?a - cos ?b) / 2"
    by (simp add: raised_cosine_def)
  also have "\<dots> = sin ((?a + ?b) / 2) * sin ((?b - ?a) / 2)"
    by (simp only: cos_diff_cos)
  also have "\<dots> = sin (k * h) * sin h"
    by (simp only: mid half)
  finally have eq: "raised_cosine i n - raised_cosine (Suc i) n = sin (k * h) * sin h" .
  have h0: "0 \<le> h" unfolding h_def by simp
  have "1 * h \<le> k * h"
    using h0 by (intro mult_right_mono) (simp_all add: k_def)
  then have h1: "h \<le> k * h" by simp
  have "i + 2 \<le> n" using assms by simp
  then have "real (i + 2) \<le> real n" by (simp only: of_nat_le_iff)
  then have "k + 1 \<le> 2 * real n" unfolding k_def by simp
  then have "(k + 1) * h \<le> 2 * real n * h"
    using h0 by (rule mult_right_mono)
  also have "2 * real n * h = pi" unfolding h_def using n by simp
  finally have h2: "k * h \<le> pi - h"
    by (simp add: algebra_simps)
  have "h \<le> pi" using h1 h2 h0 by linarith
  then have s0: "0 \<le> sin h" using h0 by (intro sin_ge_zero)
  have "sin h \<le> sin (k * h)"
    using h0 h1 h2 by (rule sin_ge_at_ends)
  then have "sin h * sin h \<le> sin (k * h) * sin h"
    using s0 by (rule mult_right_mono)
  then show ?thesis unfolding eq h_def [symmetric] by (simp add: power2_eq_square)
qed

lemma raised_cosine_decreasing:
  assumes "i \<le> j" "j \<le> n" "0 < n"
  shows "raised_cosine j n \<le> raised_cosine i n"
  using raised_cosine_antimono [OF assms] by (simp add: raised_cosine_def)

lemma raised_cosine_gap:
  assumes "i < j" "j < n"
  shows "(sin (pi / (2 * real n)))\<^sup>2 \<le> raised_cosine i n - raised_cosine j n"
proof -
  have "Suc i < n" "Suc i \<le> j" "j \<le> n" "0 < n" using assms by simp_all
  from raised_cosine_step [OF this(1)] raised_cosine_decreasing [OF this(2,3,4)]
  show ?thesis by linarith
qed


text \<open>
  Where the operations are exact at zero, as IEEE arithmetic and the \<^verbatim>\<open>cos\<close> of the C
  standard's Annex F are, the coefficient of frame 0 is exactly 1.
\<close>

lemma coefficient_first:
  assumes "mul_d ops (M_PI ops) 0 = 0" and "div_d ops 0 (real_of_int n) = 0"
    and "cos_d ops 0 = 1" and "mul_d ops 0.5 1 = 0.5" and "add_d ops 0.5 0.5 = 1"
  shows "coefficient ops 0 n = 1"
  unfolding coefficient_def of_nat_0 assms(1) assms(2) assms(3) assms(4) assms(5) ..

text \<open>
  \<^bold>\<open>C6\<close>, as amended. For a window of \<open>n > 0\<close> frames and \<open>ch > 0\<close> channels, the
  slots of frame \<open>i\<close> all hold the cast of the \<^verbatim>\<open>double\<close> that the platform computes for
  \<open>0.5 + 0.5 cos (\<pi> i / n)\<close>. Under the standard model of rounding that \<^verbatim>\<open>double\<close> is
  within \<open>d\<close> of the curve; so the first is within \<open>d\<close> of 1 and the last within \<open>d\<close>
  of \<open>sin\<^sup>2 (\<pi> / 2n)\<close>, which is at most \<open>(\<pi> / 2n)\<^sup>2\<close>: near 0 for a long window only.
  The sequence is non-increasing when the cast is monotone and \<open>2 d\<close> is at most the
  smallest step \<open>sin\<^sup>2 (\<pi> / 2n)\<close> of the curve.
\<close>

theorem gen_window_raised_cosine:
  fixes to_float :: "real \<Rightarrow> 'a::order"
  assumes "n = nat (LATENCY * samplerate p sdiv 1000)" and "0 < n"
    and "ch = nat (channels p)" and "0 < ch"
    and "rounds_within ops n u e_pi e_cos" and "d = window_error u e_pi e_cos"
  shows "length (window (gen_window ops to_float p)) = n * ch
    \<and> (\<forall>i<n. \<forall>c<ch. window (gen_window ops to_float p) ! (i * ch + c)
                         = to_float (coefficient ops i (int n)))
    \<and> (\<forall>i<n. \<bar>coefficient ops i (int n) - raised_cosine i n\<bar> \<le> d)
    \<and> (mono to_float \<and> 2 * d \<le> (sin (pi / (2 * real n)))\<^sup>2 \<longrightarrow>
          (\<forall>j k. j \<le> k \<and> k < n * ch
               \<longrightarrow> window (gen_window ops to_float p) ! k
                     \<le> window (gen_window ops to_float p) ! j))
    \<and> \<bar>coefficient ops 0 (int n) - 1\<bar> \<le> d
    \<and> last (window (gen_window ops to_float p)) = to_float (coefficient ops (n - 1) (int n))
    \<and> \<bar>coefficient ops (n - 1) (int n) - (sin (pi / (2 * real n)))\<^sup>2\<bar> \<le> d
    \<and> (sin (pi / (2 * real n)))\<^sup>2 \<le> (pi / (2 * real n))\<^sup>2"
proof -
  let ?f = "window (gen_window ops to_float p)"
  let ?g = "\<lambda>i. coefficient ops i (int n)"
  have rn: "LATENCY * samplerate p sdiv 1000 = int n"
    using assms(2) unfolding assms(1) by simp
  have len: "length ?f = n * ch"
    unfolding assms(1,3) by (rule gen_window_length)
  have nth: "?f ! k = to_float (?g (k div ch))" if "k < n * ch" for k
    using gen_window_nth [of k p ops to_float] that unfolding rn assms(3) nat_int
    by blast
  have err: "\<bar>?g i - raised_cosine i n\<bar> \<le> d" if "i < n" for i
    unfolding assms(6) using assms(5) that by (rule coefficient_error)
  have frames: "\<forall>i<n. \<forall>c<ch. ?f ! (i * ch + c) = to_float (?g i)"
  proof (intro allI impI)
    fix i c assume "i < n" "c < ch"
    have "Suc i * ch \<le> n * ch"
      using \<open>i < n\<close> by (intro mult_le_mono1) simp
    then have "i * ch + c < n * ch"
      using \<open>c < ch\<close> by simp
    moreover have "(i * ch + c) div ch = i" using \<open>c < ch\<close> by simp
    ultimately show "?f ! (i * ch + c) = to_float (?g i)"
      using nth [of "i * ch + c"] by simp
  qed
  have decr: "?f ! k \<le> ?f ! j"
    if m: "mono to_float" and gap: "2 * d \<le> (sin (pi / (2 * real n)))\<^sup>2"
      and jk: "j \<le> k \<and> k < n * ch" for j k
  proof -
    from jk have b: "j div ch \<le> k div ch" "k div ch < n" "j < n * ch"
      by (simp_all add: div_le_mono less_mult_imp_div_less mult.commute)
    have "?g (k div ch) \<le> ?g (j div ch)"
    proof (cases "j div ch = k div ch")
      case True
      then show ?thesis by simp
    next
      case False
      with b have lt: "j div ch < k div ch" by simp
      from raised_cosine_gap [OF lt b(2)] gap
        err [OF b(2)] err [of "j div ch"] lt b(2)
      show ?thesis by linarith
    qed
    with m have "to_float (?g (k div ch)) \<le> to_float (?g (j div ch))"
      by (rule monoD)
    then show ?thesis using jk b(3) nth [of j] nth [of k] by simp
  qed
  have first: "\<bar>?g 0 - 1\<bar> \<le> d"
    using err [OF assms(2)] by (simp add: raised_cosine_def)
  have ne: "?f \<noteq> []" using len assms(2,4) by auto
  then have "last ?f = ?f ! (n * ch - 1)"
    by (simp add: last_conv_nth len)
  also have "\<dots> = to_float (?g ((n * ch - 1) div ch))"
    using nth [of "n * ch - 1"] assms(2,4) by simp
  also have "(n * ch - 1) div ch = n - 1"
  proof -
    obtain n' c' where "n = Suc n'" "ch = Suc c'"
      using assms(2,4) by (metis gr0_implies_Suc)
    then have "n * ch - 1 = c' + n' * ch" "c' < ch" "n - 1 = n'"
      by simp_all
    then show ?thesis by simp
  qed
  finally have lst: "last ?f = to_float (?g (n - 1))" .
  have "raised_cosine (n - 1) n = (sin (pi / (2 * real n)))\<^sup>2"
    using raised_cosine_last [OF assms(2)] by (simp add: raised_cosine_def)
  with err [of "n - 1"] assms(2)
  have lerr: "\<bar>?g (n - 1) - (sin (pi / (2 * real n)))\<^sup>2\<bar> \<le> d" by simp
  from len frames err decr first lst lerr sin_squared_le [of "pi / (2 * real n)"]
  show ?thesis by blast
qed

lemma exact_ops_rounds: "rounds_within exact_ops n 0 0 0"
  by (simp add: rounds_within_def exact_ops_def)

lemma window_error_zero: "window_error 0 0 0 = 0"
  by (simp add: window_error_def)

text \<open>The window of the small session, in arithmetic without rounding.\<close>

theorem gen_window_raised_cosine_witness:
  "length (window (gen_window exact_ops id demo_loaded)) = 2
   \<and> window (gen_window exact_ops id demo_loaded) ! 1
       \<le> window (gen_window exact_ops id demo_loaded) ! 0
   \<and> \<bar>coefficient exact_ops 1 2 - raised_cosine 1 2\<bar> \<le> 0"
proof -
  let ?w = "window (gen_window exact_ops id demo_loaded)"
  have n: "2 = nat (LATENCY * samplerate demo_loaded sdiv 1000)"
    and ch: "1 = nat (channels demo_loaded)"
    by (simp_all add: demo_loaded_def zero_player_def LATENCY_def signed_divide_int_def)
  have m: "mono (id :: real \<Rightarrow> real)" by (simp add: mono_def)
  have g: "2 * (0::real) \<le> (sin (pi / (2 * real 2)))\<^sup>2" by simp
  have p2: "0 < (2::nat)" and p1: "0 < (1::nat)" by simp_all
  note th = gen_window_raised_cosine [OF n p2 ch p1 exact_ops_rounds
      window_error_zero [symmetric], of "id :: real \<Rightarrow> real"]
  have l: "length ?w = 2 * 1"
    and e: "\<forall>i<2. \<bar>coefficient exact_ops i (int 2) - raised_cosine i 2\<bar> \<le> 0"
    and d: "\<forall>j k. j \<le> k \<and> k < 2 * 1 \<longrightarrow> ?w ! k \<le> ?w ! j"
    using th m g by blast+
  from d [rule_format, of 0 1] have "?w ! 1 \<le> ?w ! 0" by simp
  moreover from e [rule_format, of 1] have "\<bar>coefficient exact_ops 1 2 - raised_cosine 1 2\<bar> \<le> 0"
    by simp
  ultimately show ?thesis using l by simp
qed

text \<open>
  At 50 Hz the window has one frame: its last weight is its first. Every operation on
  frame 0 is exact, so arithmetic without rounding gives the value of the platform, 1.
\<close>

theorem last_weight_counterexample:
  "0 < LATENCY * samplerate one_frame_player sdiv 1000
   \<and> window (gen_window exact_ops id one_frame_player) = [1]
   \<and> last (window (gen_window exact_ops id one_frame_player)) = 1"
  by (simp add: gen_window_def one_frame_player_def zero_player_def LATENCY_def exact_ops_def
      signed_divide_int_def Let_def upt_rec [of 0] upt_rec [of 1] upt_rec [of "Suc 0"])

section \<open>The window and the callback buffer\<close>

text \<open>
  \<^bold>\<open>C10\<close>. \<^verbatim>\<open>gen_window\<close>, \<^verbatim>\<open>apply_window\<close> and \<^verbatim>\<open>start_stream\<close> compute the same frame
  count from the sample rate. On the buffer of a callback invoked with the frame count
  of the stream, the window has one coefficient for each slot, the cross-fade blends
  every slot and accesses no slot outside the buffer, given that the source range lies
  in its track buffer.
\<close>

theorem fade_spans_callback_buffer:
  assumes "0 \<le> channels p"
    and "start_stream (gen_window ops to_float p) = (p', samples)"
    and "length out = nat (samples * channels p')"
    and "0 \<le> off" and "off + samples * channels p' \<le> int (length buf)"
  shows "LATENCY * samplerate p' sdiv 1000 = samples
    \<and> length (window p') = length out
    \<and> fade_samples p' = length out
    \<and> (\<exists>out'. apply_window p' out (buf, off) = Some out' \<and> length out' = length out
          \<and> (\<forall>i<length out. out' ! i = blend (window p' ! i) (out ! i) (buf ! (nat off + i))))"
proof -
  let ?n = "LATENCY * samplerate p sdiv 1000"
  from assms(2) have p': "p' = (gen_window ops to_float p)\<lparr>end' := length' p, running := True\<rparr>"
    and s: "samples = ?n"
    by (auto simp: start_stream_def Let_def gen_window_fields)
  have f: "channels p' = channels p" "samplerate p' = samplerate p"
    "window p' = window (gen_window ops to_float p)"
    by (simp_all add: p' gen_window_fields)
  have nn: "nat (?n * channels p) = nat ?n * nat (channels p)"
  proof (cases "0 \<le> ?n")
    case True
    then show ?thesis by (simp add: nat_mult_distrib)
  next
    case False
    then have "?n * channels p \<le> 0"
      using assms(1) by (simp add: mult_le_0_iff)
    with False show ?thesis by simp
  qed
  have wl: "length (window p') = nat (?n * channels p)"
    by (simp add: f gen_window_length nn)
  have ol: "length out = nat (?n * channels p)"
    using assms(3) by (simp add: f s)
  have fs: "fade_samples p' = length out"
    by (simp add: fade_samples_def f ol)
  have "apply_window p' out (buf, off) \<noteq> None"
    using assms(4,5) wl ol by (simp add: apply_window_def Let_def f s)
  then obtain out' where aw: "apply_window p' out (buf, off) = Some out'"
    by blast
  have "length out' = length out"
    and "\<forall>i<length out. out' ! i = blend (window p' ! i) (out ! i) (buf ! (nat off + i))"
    using apply_window_nth [OF aw] fs by simp_all
  with aw wl ol fs s f show ?thesis by simp
qed

text \<open>The small session: a buffer of two slots faded towards the second track.\<close>

theorem fade_spans_callback_buffer_witness:
  "start_stream (gen_window exact_ops id demo_loaded) = (demo_started, 2)
   \<and> apply_window demo_started [8, 4] ([2, 6, 0, 0, 0, 0], 0) = Some [8, 5]
   \<and> fade_samples demo_started = length [8, 4 :: real]"
proof -
  have st: "start_stream (gen_window exact_ops id demo_loaded) = (demo_started, 2)"
    by (simp add: start_stream_def gen_window_def demo_eval)
  have aw: "apply_window demo_started [8, 4] ([2, 6, 0, 0, 0, 0], 0) = Some [8, 5]"
    by (simp add: demo_eval)
  have c: "0 \<le> channels demo_loaded" "channels demo_started = 1"
    by (simp_all add: demo_loaded_def demo_started_def zero_player_def)
  from fade_spans_callback_buffer [OF c(1) st, of "[8, 4]" 0 "[2, 6, 0, 0, 0, 0]"]
  have "fade_samples demo_started = length [8, 4 :: real]"
    by (simp add: c)
  with st aw show ?thesis by blast
qed


section \<open>Shuffling\<close>

text \<open>The truncated product is an integer division.\<close>

lemma rand_offset_eq: "rand_offset RAND_MAX r k = (r * k) div (RAND_MAX + 1)"
proof -
  have "real r / (real RAND_MAX + 1.0) * real k = real (r * k) / real (RAND_MAX + 1)"
    by simp
  then have "\<lfloor>real r / (real RAND_MAX + 1.0) * real k\<rfloor> = int ((r * k) div (RAND_MAX + 1))"
    by (simp only: floor_divide_of_nat_eq)
  then show ?thesis by (simp add: rand_offset_def)
qed

lemma rand_offset_less:
  assumes "r \<le> RAND_MAX" "0 < k"
  shows "rand_offset RAND_MAX r k < k"
proof -
  have "r * k \<le> RAND_MAX * k"
    using assms(1) by (rule mult_le_mono1)
  moreover have "RAND_MAX * k < (RAND_MAX + 1) * k"
    using assms(2) by simp
  ultimately have "r * k < (RAND_MAX + 1) * k"
    by (rule le_less_trans)
  then show ?thesis
    by (simp add: rand_offset_eq less_mult_imp_div_less mult.commute)
qed

lemma swap_tracks_mset:
  "i < length ts \<Longrightarrow> j < length ts \<Longrightarrow>
     mset (swap_tracks i j ts) = mset ts \<and> length (swap_tracks i j ts) = length ts"
  by (simp add: swap_tracks_def Let_def mset_swap)

lemma swap_tracks_other:
  "k \<noteq> i \<Longrightarrow> k \<noteq> j \<Longrightarrow> swap_tracks i j ts ! k = ts ! k"
  by (simp add: swap_tracks_def Let_def)

lemma shuffle_fold:
  assumes "\<forall>k. rand k \<le> RAND_MAX"
    and "\<forall>i\<in>set idx. first \<le> i \<and> Suc i < n"
    and "length ts = n"
  shows "mset (fold (\<lambda>i ts. let j = i + rand_offset RAND_MAX (rand (i - first)) (n - i)
                             in swap_tracks i j ts) idx ts) = mset ts
    \<and> length (fold (\<lambda>i ts. let j = i + rand_offset RAND_MAX (rand (i - first)) (n - i)
                             in swap_tracks i j ts) idx ts) = n
    \<and> (\<forall>k<first. fold (\<lambda>i ts. let j = i + rand_offset RAND_MAX (rand (i - first)) (n - i)
                             in swap_tracks i j ts) idx ts ! k = ts ! k)"
  using assms(2,3)
proof (induction idx arbitrary: ts)
  case Nil
  then show ?case by simp
next
  case (Cons i idx)
  let ?j = "i + rand_offset RAND_MAX (rand (i - first)) (n - i)"
  let ?ts = "swap_tracks i ?j ts"
  from Cons.prems have i: "first \<le> i" "Suc i < n" by auto
  then have "rand_offset RAND_MAX (rand (i - first)) (n - i) < n - i"
    using assms(1) by (intro rand_offset_less) auto
  then have j: "?j < n" "i \<le> ?j" by auto
  have sw: "mset ?ts = mset ts" "length ?ts = n"
    using swap_tracks_mset [of i ts ?j] i j Cons.prems(2) by auto
  have low: "?ts ! k = ts ! k" if "k < first" for k
    using that i j by (intro swap_tracks_other) auto
  from Cons.IH [of ?ts] Cons.prems(1) sw(2)
  show ?case by (simp add: Let_def sw low)
qed

text \<open>
  \<^bold>\<open>C9\<close>. Whatever values in \<open>[0, RAND_MAX]\<close> the generator returns, the shuffled list
  has the tracks of the original list, each as often as before, at the same number of
  indices; with the reference pinned the track at index 0 stays.
\<close>

theorem shuffle_tracks_permutation:
  assumes "\<forall>k. rand k \<le> RAND_MAX"
  shows "mset (shuffle_tracks RAND_MAX rand skip_first tracks) = mset tracks
    \<and> length (shuffle_tracks RAND_MAX rand skip_first tracks) = length tracks
    \<and> (skip_first \<and> tracks \<noteq> [] \<longrightarrow>
          shuffle_tracks RAND_MAX rand skip_first tracks ! 0 = tracks ! 0)"
proof -
  let ?first = "if skip_first then 1 else 0 :: nat"
  have idx: "\<forall>i\<in>set [?first..<length tracks - 1]. ?first \<le> i \<and> Suc i < length tracks"
    by auto
  from shuffle_fold [OF assms idx refl]
  show ?thesis by (auto simp: shuffle_tracks_def Let_def)
qed

text \<open>Three tracks and a generator that always returns 20000 of 32767.\<close>

theorem shuffle_tracks_permutation_witness:
  "shuffle_tracks 32767 (\<lambda>k. 20000) True [''a'', ''b'', ''c''] = [''a'', ''c'', ''b'']
   \<and> shuffle_tracks 32767 (\<lambda>k. 20000) False [''a'', ''b'', ''c''] = [''b'', ''c'', ''a'']
   \<and> mset [''a'', ''c'', ''b''] = mset [''a'', ''b'', ''c'']"
proof -
  have e: "shuffle_tracks 32767 (\<lambda>k. 20000) True [''a'', ''b'', ''c''] = [''a'', ''c'', ''b'']"
    "shuffle_tracks 32767 (\<lambda>k. 20000) False [''a'', ''b'', ''c''] = [''b'', ''c'', ''a'']"
    by (simp_all add: shuffle_tracks_def rand_offset_eq swap_tracks_def Let_def
        upt_rec [of 0] upt_rec [of 1] upt_rec [of "Suc 0"] numeral_2_eq_2)
  have "\<forall>k. (\<lambda>k. 20000) k \<le> (32767::nat)" by simp
  from shuffle_tracks_permutation [OF this, of True "[''a'', ''b'', ''c'']"]
  have "mset [''a'', ''c'', ''b''] = mset [''a'', ''b'', ''c'']"
    unfolding e by blast
  with e show ?thesis by blast
qed


section \<open>Padding\<close>

lemma load_track_length:
  assumes "load_track d = Inr t" "0 < track.channels t"
  shows "0 \<le> track.length' t"
    and "track.length' t * track.channels t \<le> int (length (track.pcm t))"
proof -
  from assms(1) have t: "track.pcm t = floats d" "track.channels t = probe_channels d"
    "track.length' t = int (length (floats d)) div probe_channels d"
    by (auto simp: load_track_def split: if_splits)
  show "0 \<le> track.length' t"
    using assms(2) by (simp add: t pos_imp_zdiv_nonneg_iff)
  have "int (length (floats d)) div probe_channels d * probe_channels d
      \<le> int (length (floats d))"
    using assms(2) div_mult_mod_eq [of "int (length (floats d))" "probe_channels d"]
      pos_mod_sign [of "probe_channels d" "int (length (floats d))"]
    unfolding t by linarith
  then show "track.length' t * track.channels t \<le> int (length (track.pcm t))"
    by (simp add: t)
qed


lemma load_one_Inr:
  assumes "load_one device_rate p ts d = Inr (p', ts')"
  shows "\<exists>t samples1. load_track d = Inr t
    \<and> track.channels t = track.channels (if ts = [] then t else hd ts)
    \<and> p' = (if ts = []
            then p\<lparr>length' := track.length' t, channels := track.channels t,
                   samplerate := (if device_rate \<noteq> 0 then device_rate
                                  else track.samplerate t)\<rparr>
            else p)
    \<and> samples1 = (if track.length' t < length' p'
                   then LATENCY * samplerate p' sdiv 1000 + (length' p' - track.length' t)
                   else LATENCY * samplerate p' sdiv 1000)
    \<and> 0 \<le> samples1 * track.channels t
    \<and> ts' = ts @ [t\<lparr>pcm := take (nat (track.length' t * track.channels t)) (track.pcm t)
                            @ replicate (nat (samples1 * track.channels t)) 0\<rparr>]"
proof -
  from assms obtain t where t: "load_track d = Inr t"
    by (auto simp: load_one_def split: sum.splits)
  show ?thesis
  proof (cases "ts = []")
    case True
    with assms t show ?thesis
      by (auto simp: load_one_def Let_def split: if_splits)
  next
    case False
    with assms t show ?thesis
      by (auto simp: load_one_def Let_def split: if_splits)
  qed
qed


lemma load_one_padded:
  assumes "load_one device_rate p ts d = Inr (p', ts')" and "0 < channels p'"
    and "ts \<noteq> [] \<longrightarrow> track.channels (hd ts) = channels p"
  shows "\<exists>t'. ts' = ts @ [t'] \<and> padded p' t' \<and> (ts \<noteq> [] \<longrightarrow> p' = p)"
proof -
  from load_one_Inr [OF assms(1)] obtain t samples1 where t: "load_track d = Inr t"
    and ch: "track.channels t = track.channels (if ts = [] then t else hd ts)"
    and p': "p' = (if ts = []
            then p\<lparr>length' := track.length' t, channels := track.channels t,
                   samplerate := (if device_rate \<noteq> 0 then device_rate
                                  else track.samplerate t)\<rparr>
            else p)"
    and s1: "samples1 = (if track.length' t < length' p'
                   then LATENCY * samplerate p' sdiv 1000 + (length' p' - track.length' t)
                   else LATENCY * samplerate p' sdiv 1000)"
    and nn: "0 \<le> samples1 * track.channels t"
    and ts': "ts' = ts @ [t\<lparr>pcm := take (nat (track.length' t * track.channels t)) (track.pcm t)
                            @ replicate (nat (samples1 * track.channels t)) 0\<rparr>]"
    by blast
  let ?c = "track.channels t" and ?len = "track.length' t"
  let ?W = "LATENCY * samplerate p' sdiv 1000"
  let ?t' = "t\<lparr>pcm := take (nat (?len * ?c)) (track.pcm t) @ replicate (nat (samples1 * ?c)) 0\<rparr>"
  have c: "?c = channels p'"
    using ch p' assms(3) by (cases "ts = []") simp_all
  then have cpos: "0 < ?c" using assms(2) by simp
  from load_track_length [OF t cpos] have len: "0 \<le> ?len" "?len * ?c \<le> int (length (track.pcm t))"
    by simp_all
  have "0 \<le> ?len * ?c" using len(1) cpos by simp
  with len(2) have tk: "int (length (take (nat (?len * ?c)) (track.pcm t))) = ?len * ?c"
    by simp
  have total: "int (length (track.pcm ?t')) = (?len + samples1) * ?c"
    using tk nn by (simp add: distrib_right)
  have short: "int (length (track.pcm ?t')) = (length' p' + ?W) * ?c" if "?len < length' p'"
    using that total s1 by simp
  have long: "(length' p' + ?W) * ?c \<le> int (length (track.pcm ?t'))" if "\<not> ?len < length' p'"
  proof -
    from that have "length' p' + ?W \<le> ?len + samples1" using s1 by simp
    then have "(length' p' + ?W) * ?c \<le> (?len + samples1) * ?c"
      using cpos by (intro mult_right_mono) simp_all
    then show ?thesis using total by simp
  qed
  have "padded p' ?t'"
    unfolding padded_def using c short long by (cases "?len < length' p'") simp_all
  moreover have "ts \<noteq> [] \<longrightarrow> p' = p" using p' by simp
  ultimately show ?thesis using ts' by blast
qed

lemma load_loop_padded:
  assumes "load_loop device_rate p ts ds = Inr (p', ts')" and "ts \<noteq> []"
    and "0 < channels p" and "track.channels (hd ts) = channels p"
    and "\<forall>t\<in>set ts. padded p t"
  shows "p' = p \<and> (\<forall>t\<in>set ts'. padded p t)"
  using assms
proof (induction ds arbitrary: ts)
  case Nil
  then show ?case by simp
next
  case (Cons d ds)
  from Cons.prems(1) obtain p1 ts1 where one: "load_one device_rate p ts d = Inr (p1, ts1)"
    and loop: "load_loop device_rate p1 ts1 ds = Inr (p', ts')"
    by (auto split: sum.splits)
  have p1: "p1 = p"
    using load_one_Inr [OF one] Cons.prems(2) by auto
  from load_one_padded [OF one] Cons.prems(2,3,4) p1
  obtain t' where t': "ts1 = ts @ [t']" "padded p t'"
    by auto
  have "ts1 \<noteq> []" "track.channels (hd ts1) = channels p" "\<forall>t\<in>set ts1. padded p t"
    using t' Cons.prems(2,4,5) by auto
  from Cons.IH [OF loop [unfolded p1] this(1) Cons.prems(3) this(2,3)]
  show ?case .
qed

lemma load_loop_player:
  assumes "load_loop device_rate p ts ds = Inr (p', ts')" and "ts \<noteq> []"
  shows "p' = p"
  using assms
proof (induction ds arbitrary: ts)
  case Nil
  then show ?case by simp
next
  case (Cons d ds)
  from Cons.prems(1) obtain p1 ts1 where one: "load_one device_rate p ts d = Inr (p1, ts1)"
    and loop: "load_loop device_rate p1 ts1 ds = Inr (p', ts')"
    by (auto split: sum.splits)
  from load_one_Inr [OF one] Cons.prems(2) have "p1 = p" "ts1 \<noteq> []" by auto
  with Cons.IH [of ts1] loop show ?case by simp
qed

lemma load_tracks_padded:
  assumes "load_tracks device_rate p0 files = Inr (p, tracks)" and "0 < channels p"
  shows "\<forall>t\<in>set tracks. padded p t"
proof -
  from assms(1) obtain d ds where loop: "load_loop device_rate p0 [] (d # ds) = Inr (p, tracks)"
    by (cases files) (auto simp: load_tracks_def split: if_splits)
  then obtain p1 ts1 where one: "load_one device_rate p0 [] d = Inr (p1, ts1)"
    and rest: "load_loop device_rate p1 ts1 ds = Inr (p, tracks)"
    by (auto split: sum.splits)
  from load_one_Inr [OF one] have ne: "ts1 \<noteq> []" by auto
  from load_loop_player [OF rest ne] have p: "p = p1" .
  from load_one_padded [OF one] assms(2) p obtain t1 where t1: "ts1 = [t1]" "padded p t1"
    by auto
  then have "track.channels (hd ts1) = channels p" "\<forall>t\<in>set ts1. padded p t"
    by (simp_all add: padded_def)
  from load_loop_padded [OF rest [folded p] ne assms(2) this] show ?thesis by simp
qed

text \<open>
  After loading, the buffer of a track shorter than the reference holds the reference
  length plus one window, in frames, and the read of a loop-wrap cross-fade from it, with
  the loop start anywhere in the reference length, stays inside that buffer.
\<close>

lemma wrap_blend_in_bounds:
  assumes "load_tracks device_rate p0 files = Inr (p, tracks)" and "0 < channels p"
    and "t \<in> set tracks" and "track.length' t < length' p"
    and "channels q = channels p" and "samplerate q = samplerate p"
    and "0 \<le> start q" and "start q \<le> length' p"
    and "fade_samples q \<le> length out" and "fade_samples q \<le> length (window q)"
  shows "int (length (track.pcm t))
           = (length' p + LATENCY * samplerate p sdiv 1000) * channels p
    \<and> (\<exists>out'. apply_window q out (track.pcm t, start q * channels q) = Some out')"
proof -
  let ?W = "LATENCY * samplerate p sdiv 1000"
  from load_tracks_padded [OF assms(1,2)] assms(3) have "padded p t" by blast
  with assms(4) have len: "int (length (track.pcm t)) = (length' p + ?W) * channels p"
    by (simp add: padded_def)
  have "apply_window q out (track.pcm t, start q * channels q) \<noteq> None"
  proof (cases "?W * channels p \<le> 0")
    case True
    then show ?thesis by (simp add: apply_window_def Let_def assms(5,6))
  next
    case False
    then have pos: "0 < ?W * channels p" by simp
    have "start q * channels p + ?W * channels p = (start q + ?W) * channels p"
      by (simp add: distrib_right)
    also have "\<dots> \<le> (length' p + ?W) * channels p"
      using assms(2,8) by (intro mult_right_mono) simp_all
    finally have src: "start q * channels p + ?W * channels p \<le> int (length (track.pcm t))"
      using len by simp
    have off: "0 \<le> start q * channels p" using assms(2,7) by simp
    have "?W * channels p \<le> int (length out)" "?W * channels p \<le> int (length (window q))"
      using assms(9,10) pos by (simp_all add: fade_samples_def assms(5,6))
    with src off show ?thesis
      by (simp add: apply_window_def Let_def assms(5,6))
  qed
  with len show ?thesis by blast
qed


text \<open>The two small sessions are what loading their files gives.\<close>

lemma demo_load:
  "load_tracks 0 zero_player demo_files = Inr (demo_loaded, demo_tracks)"
  by (simp add: load_tracks_def load_one_def load_track_def demo_files_def demo_tracks_def
      demo_loaded_def zero_player_def MAX_LENGTH_def LATENCY_def signed_divide_int_def Let_def
      numeral_2_eq_2 eval_nat_numeral)

lemma tail_load:
  "load_tracks 0 zero_player tail_files = Inr (tail_loaded, tail_tracks)"
  by (simp add: load_tracks_def load_one_def load_track_def tail_files_def tail_tracks_def
      tail_loaded_def zero_player_def MAX_LENGTH_def LATENCY_def signed_divide_int_def Let_def
      numeral_2_eq_2 eval_nat_numeral)

lemma tail_started_eq: "fst (start_stream (gen_window exact_ops id tail_loaded)) = tail_started"
  by (simp add: start_stream_def gen_window_def exact_ops_def tail_started_def tail_loaded_def
      zero_player_def LATENCY_def signed_divide_int_def Let_def upt_rec [of 0] upt_rec [of 1]
      upt_rec [of "Suc 0"] numeral_2_eq_2)

lemmas tail_eval = process_def track_at_def memcpy_from_def apply_window_def tail_tracks_def
  tail_started_def tail_loaded_def zero_player_def LATENCY_def STEP_def signed_divide_int_def
  Let_def step_event_def main_switch_def main_step_def min'_def max'_def
  upt_rec [of 0] upt_rec [of 1] upt_rec [of "Suc 0"] numeral_2_eq_2

text \<open>
  \<^bold>\<open>C8\<close>. A padded track shorter than the reference is to cause no read outside its
  buffer when the loop wraps within the last window of the reference length. The padding
  is one window, and the read of the wrap cross-fade itself stays inside it
  (\<open>wrap_blend_in_bounds\<close>); but the wrap leaves \<open>pos = start + n\<close>, past the reference
  length when the start lies in the last window, and the copy at the head of the
  following invocation reads \<open>n\<close> frames from there. In the session of six frames the
  keys \<open>2\<close> and \<open>o\<close> select the short track and put the loop at \<open>[5, 6]\<close>; the fourth
  callback wraps and leaves \<open>pos = 7\<close>; the fifth copies the frames 7 and 8 of a buffer
  of 8 frames: an access outside the buffer, \<open>None\<close> here.
\<close>

theorem wrap_in_last_window_overruns:
  "load_tracks 0 zero_player tail_files = Inr (tail_loaded, tail_tracks)
   \<and> fst (start_stream (gen_window exact_ops id tail_loaded)) = tail_started
   \<and> length (track.pcm (tail_tracks ! 1)) = 6 + 2
   \<and> run_events 2 2 tail_tracks tail_started
        [Key CHR ''2'', Key CHR ''o'', Callback, Callback, Callback, Callback]
       = Some (tail_started\<lparr>track := 1, next' := 1, start := 5, pos := 7\<rparr>,
               [[8, 5], [0, 0], [0, 0], [0, 0]])
   \<and> process 2 tail_tracks (tail_started\<lparr>track := 1, next' := 1, start := 5, pos := 7\<rparr>) = None"
proof -
  have "length (track.pcm (tail_tracks ! 1)) = 6 + 2"
    by (simp add: tail_tracks_def)
  moreover have "run_events 2 2 tail_tracks tail_started
        [Key CHR ''2'', Key CHR ''o'', Callback, Callback, Callback, Callback]
       = Some (tail_started\<lparr>track := 1, next' := 1, start := 5, pos := 7\<rparr>,
               [[8, 5], [0, 0], [0, 0], [0, 0]])"
    by (simp add: tail_eval)
  moreover have
    "process 2 tail_tracks (tail_started\<lparr>track := 1, next' := 1, start := 5, pos := 7\<rparr>) = None"
    by (simp add: tail_eval)
  ultimately show ?thesis using tail_load tail_started_eq by blast
qed


section \<open>Blending a buffer with itself\<close>

text \<open>
  With \<^verbatim>\<open>in == out\<close> the loop of \<^verbatim>\<open>apply_window\<close> reads \<^verbatim>\<open>in[i]\<close> before it writes
  \<^verbatim>\<open>out[i]\<close> and never reads a slot it has written, so that the input is the buffer as it
  was on entry.
\<close>

lemma blend_same_exact: "blend w x x = x" for x :: "'a::comm_ring_1"
  by (simp add: blend_def algebra_simps)

text \<open>
  \<^bold>\<open>C7\<close>. In arithmetic without rounding, that of a commutative ring, blending a buffer
  with itself leaves every sample unchanged, for every window and every sample value,
  the buffer and the window having the slots of the fade.
\<close>

theorem self_blend_exact:
  fixes out :: "'a::comm_ring_1 list"
  assumes "fade_samples p \<le> length out" and "fade_samples p \<le> length (window p)"
  shows "apply_window p out (out, 0) = Some out"
proof -
  let ?cnt = "LATENCY * samplerate p sdiv 1000 * channels p"
  have "apply_window p out (out, 0) \<noteq> None"
    using assms by (cases "?cnt \<le> 0") (auto simp: apply_window_def Let_def fade_samples_def)
  then obtain out' where r: "apply_window p out (out, 0) = Some out'" by blast
  have "out' = out"
  proof (rule nth_equalityI)
    show "length out' = length out" by (rule apply_window_nth(1) [OF r])
  next
    fix i assume "i < length out'"
    then have i: "i < length out" by (simp add: apply_window_nth(1) [OF r])
    show "out' ! i = out ! i"
      using apply_window_nth(2) [OF r i] by (simp add: blend_same_exact)
  qed
  with r show ?thesis by simp
qed

text \<open>The first buffer of the small session, over the reals, under the window \<open>[1, 1/2]\<close>.\<close>

theorem self_blend_exact_witness:
  "apply_window demo_started [8, 4] ([8, 4], 0) = Some [8, 4]"
  using self_blend_exact [of demo_started "[8, 4]"]
  by (simp add: fade_samples_def demo_eval)

text \<open>
  \<^bold>\<open>C7\<close>, as stated, for the samples of the program. With the coefficient
  \<open>16701823 / 2 ^ 24\<close> (\<^verbatim>\<open>0x3f7ed97f\<close>, the value of the 48 kHz window at frame 41 as glibc
  computes it) and the sample \<open>12248171 / 2 ^ 27\<close> (\<^verbatim>\<open>0x3dbae46b\<close>) the two
  products round to \<open>12193131 / 2 ^ 27\<close> and \<open>14090368 / 2 ^ 35\<close>, and their sum to the next
  value above the sample. With the coefficient 1 and an infinite sample the second
  product is \<open>0 * \<infinity>\<close>, not a number, and so is the sum.
\<close>

theorem self_blend_rounded:
  "apply_window (one_slot_player\<lparr>window := [Finite 16701823 (- 24)]\<rparr>)
       [Finite 12248171 (- 27)] ([Finite 12248171 (- 27)], 0)
     = Some [Finite 12248172 (- 27)]
   \<and> apply_window one_slot_player [Infinity False] ([Infinity False], 0) = Some [NaN]"
  by code_simp


end
